theory Spec2Isabelle
  imports Complex_Main "HOL-Library.Sublist"
begin

section \<open>Text primitives of the chunker\<close>

text \<open>
  The chunker of \<^verbatim>\<open>transform.py\<close> works on Python strings. A string is modelled as a
  \<^typ>\<open>string\<close>; a character stands for a code point below 256. Lengths and positions
  produced by \<^verbatim>\<open>len\<close> and \<^verbatim>\<open>enumerate\<close> are natural numbers; the configured sizes
  are Python integers and are kept as \<^typ>\<open>int\<close>, since nothing in the source keeps
  them positive.
\<close>

text \<open>
  The white space of \<^verbatim>\<open>str.strip()\<close> and of the pattern \<^verbatim>\<open>\s\<close> (both decided by
  \<^verbatim>\<open>str.isspace\<close> on a code point), below 256.
\<close>

definition is_space :: "char \<Rightarrow> bool" where
  "is_space c \<longleftrightarrow>
     c \<in> set [CHR 0x09, CHR 0x0A, CHR 0x0B, CHR 0x0C, CHR 0x0D, CHR 0x1C, CHR 0x1D,
              CHR 0x1E, CHR 0x1F, CHR 0x20, CHR 0x85, CHR 0xA0]"

text \<open>The character class \<^verbatim>\<open>[.!?]\<close> of the sentence pattern.\<close>

definition is_sentence_end :: "char \<Rightarrow> bool" where
  "is_sentence_end c \<longleftrightarrow> c \<in> set ''.!?''"

text \<open>\<^verbatim>\<open>s.strip()\<close>\<close>

definition strip :: "string \<Rightarrow> string" where
  "strip s = rev (dropWhile is_space (rev (dropWhile is_space s)))"

text \<open>\<^verbatim>\<open>s[-k:]\<close> for a positive \<open>k\<close>: the last \<open>k\<close> characters, all of \<open>s\<close> when it is shorter.\<close>

definition last_chars :: "nat \<Rightarrow> string \<Rightarrow> string" where
  "last_chars k s = drop (length s - k) s"

text \<open>
  \<^verbatim>\<open>content.split('\n\n')\<close>: the pieces between the leftmost non-overlapping
  occurrences of two line feeds; never the empty list.
\<close>

fun split_paragraphs :: "string \<Rightarrow> string list" where
  "split_paragraphs [] = [[]]"
| "split_paragraphs [c] = [[c]]"
| "split_paragraphs (c # d # cs) =
     (if c = CHR 0x0A \<and> d = CHR 0x0A then [] # split_paragraphs cs
      else (case split_paragraphs (d # cs) of
              [] \<Rightarrow> [[c]]
            | p # ps \<Rightarrow> (c # p) # ps))"

text \<open>
  \<^verbatim>\<open>re.split(r'(?<=[.!?])\s+', s)\<close>: a separator is a maximal run of white space that
  directly follows one of \<^verbatim>\<open>.!?\<close>; the pieces between the separators are returned,
  never the empty list.
\<close>

function split_sentences :: "string \<Rightarrow> string list" where
  "split_sentences [] = [[]]"
| "split_sentences (c # cs) =
     (if is_sentence_end c \<and> cs \<noteq> [] \<and> is_space (hd cs)
      then [c] # split_sentences (dropWhile is_space cs)
      else (case split_sentences cs of
              [] \<Rightarrow> [[c]]
            | p # ps \<Rightarrow> (c # p) # ps))"
  by pat_completeness auto
termination
  by (relation "measure length") (auto simp: length_dropWhile_le less_Suc_eq_le)

text \<open>\<^verbatim>\<open>str(n)\<close> for a non-negative integer: its decimal digits.\<close>

definition digit_char :: "nat \<Rightarrow> char" where
  "digit_char d = ''0123456789'' ! d"

function str_nat :: "nat \<Rightarrow> string" where
  "str_nat n = (if n < 10 then [digit_char n] else str_nat (n div 10) @ [digit_char (n mod 10)])"
  by pat_completeness auto
termination
  by (relation "measure id") auto

declare str_nat.simps [simp del]

section \<open>The boundary-aware splitter\<close>

text \<open>
  The state of both loops of \<^verbatim>\<open>_smart_split_content\<close>: the list \<^verbatim>\<open>chunks\<close> and the
  accumulator (\<^verbatim>\<open>current_chunk\<close> in the paragraph loop, \<^verbatim>\<open>temp_chunk\<close> in the sentence
  loop).
\<close>

type_synonym split_state = "string list \<times> string"

text \<open>One iteration of the loop over the sentences of an over-long paragraph.\<close>

definition sentence_step :: "int \<Rightarrow> int \<Rightarrow> split_state \<Rightarrow> string \<Rightarrow> split_state" where
  "sentence_step target_size overlap st sentence =
     (case st of (chunks, temp_chunk) \<Rightarrow>
        if int (length (temp_chunk @ '' '' @ sentence)) \<le> target_size then
          (chunks, if temp_chunk \<noteq> [] then temp_chunk @ '' '' @ sentence else sentence)
        else if temp_chunk \<noteq> [] then
          (chunks @ [strip temp_chunk],
           if overlap > 0 then
             (if int (length temp_chunk) > overlap then last_chars (nat overlap) temp_chunk
              else temp_chunk) @ '' '' @ sentence
           else sentence)
        else (chunks @ [strip sentence], []))"

text \<open>
  The accumulator after a segment was emitted in the paragraph loop: the last sentence
  fragment of the last \<open>overlap\<close> characters, or nothing.
\<close>

definition overlap_seed :: "int \<Rightarrow> string \<Rightarrow> string" where
  "overlap_seed overlap current_chunk =
     (if overlap > 0 \<and> int (length current_chunk) > overlap then
        (let overlap_text = last_chars (nat overlap) current_chunk;
             sentences = split_sentences overlap_text
         in if sentences \<noteq> [] then last sentences else overlap_text)
      else [])"

text \<open>One iteration of the loop over the paragraphs.\<close>

definition paragraph_step :: "int \<Rightarrow> int \<Rightarrow> split_state \<Rightarrow> string \<Rightarrow> split_state" where
  "paragraph_step target_size overlap st para =
     (case st of (chunks, current_chunk) \<Rightarrow>
        let test_chunk = (if current_chunk \<noteq> [] then current_chunk @ [CHR 0x0A, CHR 0x0A] @ para
                          else para)
        in if int (length test_chunk) \<le> target_size then (chunks, test_chunk)
           else
             let st1 = (if current_chunk \<noteq> []
                        then (chunks @ [strip current_chunk], overlap_seed overlap current_chunk)
                        else (chunks, current_chunk))
             in if int (length para) > target_size
                then foldl (sentence_step target_size overlap) st1 (split_sentences para)
                else (fst st1, para))"

definition smart_split_content :: "string \<Rightarrow> int \<Rightarrow> int \<Rightarrow> string list" where
  "smart_split_content text target_size overlap =
     (case foldl (paragraph_step target_size overlap) ([], []) (split_paragraphs text) of
        (chunks, current_chunk) \<Rightarrow>
          filter (\<lambda>chunk. strip chunk \<noteq> [])
            (if current_chunk \<noteq> [] then chunks @ [strip current_chunk] else chunks))"

section \<open>Chunk records and their builders\<close>

datatype level = Parent | Child

text \<open>
  A chunk is a Python dictionary; a key that a chunk may lack (\<^verbatim>\<open>parent_id\<close>,
  \<^verbatim>\<open>child_chunk_ids\<close>, \<^verbatim>\<open>child_count\<close>, \<^verbatim>\<open>global_id\<close>) is an optional field.
\<close>

record chunk =
  chunk_id :: string
  level :: level
  section_name :: string
  parent_id :: "string option"
  chunk_index :: nat
  content :: string
  char_count :: nat
  estimated_tokens :: nat
  content_hash :: string
  child_chunk_ids :: "string list option"
  child_count :: "nat option"
  global_id :: "nat option"

text \<open>
  The entries of \<^verbatim>\<open>self.config\<close> that the chunking reads, with
  \<^verbatim>\<open>self.model_context_window\<close>.
\<close>

record config =
  parent_chunk_size :: int
  child_chunk_size :: int
  overlap_size :: int
  available_context :: int
  model_context_window :: int

text \<open>
  The fingerprint \<^verbatim>\<open>hashlib.md5(s.encode()).hexdigest()[:8]\<close> is a library function; the
  builders take it as the parameter \<open>fp\<close>.
\<close>

definition create_parent_chunks :: "config \<Rightarrow> (string \<Rightarrow> string) \<Rightarrow> string \<Rightarrow> string \<Rightarrow> chunk list" where
  "create_parent_chunks cfg fp sname text =
     (if int (length text) \<le> parent_chunk_size cfg then
        [\<lparr>chunk_id = sname @ ''_P1'', level = Parent, section_name = sname, parent_id = None,
          chunk_index = 1, content = text, char_count = length text,
          estimated_tokens = length text div 4, content_hash = fp text,
          child_chunk_ids = None, child_count = None, global_id = None\<rparr>]
      else
        map (\<lambda>(i, chunk_content).
               \<lparr>chunk_id = sname @ ''_P'' @ str_nat i, level = Parent, section_name = sname,
                parent_id = None, chunk_index = i, content = chunk_content,
                char_count = length chunk_content,
                estimated_tokens = length chunk_content div 4,
                content_hash = fp chunk_content,
                child_chunk_ids = None, child_count = None, global_id = None\<rparr>)
          (enumerate 1 (smart_split_content text (parent_chunk_size cfg) (overlap_size cfg))))"

definition create_child_chunks :: "config \<Rightarrow> (string \<Rightarrow> string) \<Rightarrow> string \<Rightarrow> chunk \<Rightarrow> nat \<Rightarrow> chunk list" where
  "create_child_chunks cfg fp sname parent_chunk parent_idx =
     (let text = content parent_chunk in
      if int (length text) \<le> child_chunk_size cfg then
        [\<lparr>chunk_id = sname @ ''_P'' @ str_nat (parent_idx + 1) @ ''_C1'', level = Child,
          section_name = sname, parent_id = Some (chunk_id parent_chunk),
          chunk_index = 1, content = text, char_count = length text,
          estimated_tokens = length text div 4, content_hash = fp text,
          child_chunk_ids = None, child_count = None, global_id = None\<rparr>]
      else
        map (\<lambda>(i, chunk_content).
               \<lparr>chunk_id = sname @ ''_P'' @ str_nat (parent_idx + 1) @ ''_C'' @ str_nat i,
                level = Child, section_name = sname,
                parent_id = Some (chunk_id parent_chunk), chunk_index = i,
                content = chunk_content, char_count = length chunk_content,
                estimated_tokens = length chunk_content div 4,
                content_hash = fp text,
                child_chunk_ids = None, child_count = None, global_id = None\<rparr>)
          (enumerate 1 (smart_split_content text (child_chunk_size cfg) (overlap_size cfg))))"

section \<open>The hierarchy assembler\<close>

text \<open>
  The loop over \<^verbatim>\<open>enumerate(parent_chunks)\<close>: the children of each parent are appended
  to the section's child list and the parent receives their ids and their number. The
  result is the list of the updated parents with the section's child list.
\<close>

fun link_children :: "config \<Rightarrow> (string \<Rightarrow> string) \<Rightarrow> string \<Rightarrow> (nat \<times> chunk) list \<Rightarrow> chunk list \<times> chunk list" where
  "link_children cfg fp sname [] = ([], [])"
| "link_children cfg fp sname ((parent_idx, parent_chunk) # rest) =
     (let child_chunks = create_child_chunks cfg fp sname parent_chunk parent_idx;
          parent_chunk' = parent_chunk\<lparr>child_chunk_ids := Some (map chunk_id child_chunks),
                                       child_count := Some (length child_chunks)\<rparr>;
          (parents, children) = link_children cfg fp sname rest
      in (parent_chunk' # parents, child_chunks @ children))"

text \<open>The loop that numbers the chunks of one section, from the running counter.\<close>

fun assign_global_ids :: "nat \<Rightarrow> chunk list \<Rightarrow> chunk list" where
  "assign_global_ids gid [] = []"
| "assign_global_ids gid (c # cs) = c\<lparr>global_id := Some gid\<rparr> # assign_global_ids (gid + 1) cs"

text \<open>
  The loop over \<^verbatim>\<open>self.sections.items()\<close>, a dictionary in insertion order, given as
  the list of its items. The state is \<^verbatim>\<open>self.all_chunks\<close> with the counter
  \<^verbatim>\<open>global_id\<close>.
\<close>

fun process_sections :: "config \<Rightarrow> (string \<Rightarrow> string) \<Rightarrow> chunk list \<times> nat \<Rightarrow> (string \<times> string) list \<Rightarrow> chunk list \<times> nat" where
  "process_sections cfg fp st [] = st"
| "process_sections cfg fp (all_chunks, gid) ((sname, text) # rest) =
     (let parent_chunks = create_parent_chunks cfg fp sname text;
          (parents, children) = link_children cfg fp sname (enumerate 0 parent_chunks);
          numbered = assign_global_ids gid (parents @ children)
      in process_sections cfg fp (all_chunks @ numbered, gid + length numbered) rest)"

text \<open>\<^verbatim>\<open>self.all_chunks\<close> when the loop of \<^verbatim>\<open>create_hierarchical_chunks\<close> has ended.\<close>

definition all_chunks_of :: "config \<Rightarrow> (string \<Rightarrow> string) \<Rightarrow> (string \<times> string) list \<Rightarrow> chunk list" where
  "all_chunks_of cfg fp sections = fst (process_sections cfg fp ([], 1) sections)"

section \<open>Python numbers\<close>

datatype py_error = ZeroDivisionError | OverflowError

text \<open>
  A Python float is an IEEE 754 double. A finite float is kept as the rational number it
  denotes (the sign of a zero is not kept: nothing below reads it), with the two
  infinities beside. Every operation rounds its exact result to the nearest double, ties
  to the even mantissa, as the machine does.
\<close>

datatype py_float = Finite rat | PosInf | NegInf

definition pow2 :: "int \<Rightarrow> rat" where
  "pow2 e = (if 0 \<le> e then 2 ^ nat e else 1 / 2 ^ nat (- e))"

function floor_log2 :: "int \<Rightarrow> int" where
  "floor_log2 n = (if n < 2 then 0 else 1 + floor_log2 (n div 2))"
  by pat_completeness auto
termination
  by (relation "measure nat") auto

declare floor_log2.simps [simp del]

text \<open>The binary exponent of a positive rational \<open>q\<close>: the \<open>e\<close> with \<open>2\<^sup>e \<le> q < 2\<^sup>e\<^sup>+\<^sup>1\<close>.\<close>

definition binary_exponent :: "rat \<Rightarrow> int" where
  "binary_exponent q =
     (let e = floor_log2 (fst (quotient_of q)) - floor_log2 (snd (quotient_of q))
      in if pow2 e \<le> q then e else e - 1)"

definition round_half_even :: "rat \<Rightarrow> int" where
  "round_half_even x =
     (let f = \<lfloor>x\<rfloor>; d = x - of_int f
      in if d < 1 / 2 then f else if d > 1 / 2 then f + 1 else if even f then f else f + 1)"

text \<open>
  The double nearest to a rational: 53 bits of mantissa, the smallest exponent \<open>-1022\<close>
  (below it the doubles are equally spaced), and an infinity from \<open>2\<^sup>1\<^sup>0\<^sup>2\<^sup>4\<close> on.
\<close>

definition round_double :: "rat \<Rightarrow> py_float" where
  "round_double q =
     (if q = 0 then Finite 0
      else
        let a = \<bar>q\<bar>;
            u = pow2 (max (binary_exponent a) (- 1022) - 52);
            r = of_int (round_half_even (a / u)) * u
        in if pow2 1024 \<le> r then (if 0 < q then PosInf else NegInf)
           else Finite (if 0 < q then r else - r))"

text \<open>
  The conversion of an \<^verbatim>\<open>int\<close> operand of a float operation: it raises
  \<^verbatim>\<open>OverflowError\<close> when the integer is too large for a double.
\<close>

definition int_to_float :: "int \<Rightarrow> py_error + rat" where
  "int_to_float n =
     (case round_double (of_int n) of
        Finite r \<Rightarrow> Inr r
      | PosInf \<Rightarrow> Inl OverflowError
      | NegInf \<Rightarrow> Inl OverflowError)"

text \<open>\<^verbatim>\<open>a / b\<close> for two integers: the correctly rounded quotient.\<close>

definition int_true_divide :: "int \<Rightarrow> int \<Rightarrow> py_error + rat" where
  "int_true_divide a b =
     (if b = 0 then Inl ZeroDivisionError
      else (case round_double (of_int a / of_int b) of
              Finite r \<Rightarrow> Inr r
            | PosInf \<Rightarrow> Inl OverflowError
            | NegInf \<Rightarrow> Inl OverflowError))"

text \<open>\<^verbatim>\<open>x * y\<close> for two finite floats: no exception, an overflow gives an infinity.\<close>

definition float_mul :: "rat \<Rightarrow> rat \<Rightarrow> py_float" where
  "float_mul x y = round_double (x * y)"

definition truncate_rat :: "rat \<Rightarrow> int" where
  "truncate_rat q = (if 0 \<le> q then \<lfloor>q\<rfloor> else \<lceil>q\<rceil>)"

text \<open>
  \<^verbatim>\<open>vx // wx\<close> for a finite float \<open>vx\<close> and a float \<open>wx\<close> that is not zero, as the
  interpreter's \<^verbatim>\<open>_float_div_mod\<close> computes it: the exact remainder \<^verbatim>\<open>fmod(vx, wx)\<close>,
  the rounded quotient \<^verbatim>\<open>(vx - mod) / wx\<close>, less one when the remainder and the divisor
  differ in sign, then snapped to an integral value.
\<close>

definition float_minus_one :: "py_float \<Rightarrow> py_float" where
  "float_minus_one x = (case x of Finite d \<Rightarrow> round_double (d - 1) | PosInf \<Rightarrow> PosInf | NegInf \<Rightarrow> NegInf)"

definition float_div :: "py_float \<Rightarrow> rat \<Rightarrow> py_float" where
  "float_div x w =
     (case x of
        Finite s \<Rightarrow> round_double (s / w)
      | PosInf \<Rightarrow> (if 0 < w then PosInf else NegInf)
      | NegInf \<Rightarrow> (if 0 < w then NegInf else PosInf))"

definition snap_to_integral :: "py_float \<Rightarrow> py_float" where
  "snap_to_integral x =
     (case x of
        PosInf \<Rightarrow> PosInf
      | NegInf \<Rightarrow> NegInf
      | Finite d \<Rightarrow>
          (if d \<noteq> 0 then
             (if d - of_int \<lfloor>d\<rfloor> > 1 / 2 then round_double (of_int \<lfloor>d\<rfloor> + 1)
              else Finite (of_int \<lfloor>d\<rfloor>))
           else Finite 0))"

definition float_floor_div :: "rat \<Rightarrow> py_float \<Rightarrow> py_float" where
  "float_floor_div vx wx =
     (case wx of
        PosInf \<Rightarrow> (if vx < 0 then Finite (- 1) else Finite 0)
      | NegInf \<Rightarrow> (if 0 < vx then Finite (- 1) else Finite 0)
      | Finite w \<Rightarrow>
          (let md = vx - of_int (truncate_rat (vx / w)) * w;
               dv = float_div (round_double (vx - md)) w
           in snap_to_integral
                (if md \<noteq> 0 \<and> ((w < 0) \<noteq> (md < 0)) then float_minus_one dv else dv)))"

text \<open>\<^verbatim>\<open>x < n\<close> and \<^verbatim>\<open>x > n\<close> for a float and an integer.\<close>

definition float_less_int :: "py_float \<Rightarrow> int \<Rightarrow> bool" where
  "float_less_int x n = (case x of Finite r \<Rightarrow> r < of_int n | PosInf \<Rightarrow> False | NegInf \<Rightarrow> True)"

definition float_greater_int :: "py_float \<Rightarrow> int \<Rightarrow> bool" where
  "float_greater_int x n = (case x of Finite r \<Rightarrow> r > of_int n | PosInf \<Rightarrow> True | NegInf \<Rightarrow> False)"

section \<open>The metrics\<close>

text \<open>
  \<^verbatim>\<open>sum(tokens) / len(tokens) if tokens else 0\<close>: a float, or the integer \<open>0\<close> of an
  empty list, which is \<open>None\<close> here.
\<close>

definition average_tokens :: "nat list \<Rightarrow> py_error + rat option" where
  "average_tokens tokens =
     (if tokens \<noteq> [] then
        (case int_true_divide (int (sum_list tokens)) (int (length tokens)) of
           Inl e \<Rightarrow> Inl e | Inr avg \<Rightarrow> Inr (Some avg))
      else Inr None)"

text \<open>
  \<^verbatim>\<open>available_context // (avg * 4)\<close>. For the integer \<open>0\<close> it is an integer division by
  zero. For a float the product is formed first; the floor division then converts the
  integer, and only after that tests the divisor for zero.
\<close>

definition chunks_per_query :: "int \<Rightarrow> rat option \<Rightarrow> py_error + py_float" where
  "chunks_per_query available avg =
     (case avg of
        None \<Rightarrow> Inl ZeroDivisionError
      | Some a \<Rightarrow>
          (let wx = float_mul a 4
           in (case int_to_float available of
                 Inl e \<Rightarrow> Inl e
               | Inr vx \<Rightarrow> (if wx = Finite 0 then Inl ZeroDivisionError
                            else Inr (float_floor_div vx wx)))))"

text \<open>
  \<^verbatim>\<open>_calculate_optimization_metrics\<close> returns nothing: it prints. What is kept of it is
  whether it raises, and what. After the two lines above it prints the average of the
  parent tokens (a division by the number of parents) and the context window usage (a
  float divided by the integer \<^verbatim>\<open>model_context_window\<close>).
\<close>

definition calculate_optimization_metrics :: "config \<Rightarrow> chunk list \<Rightarrow> py_error + unit" where
  "calculate_optimization_metrics cfg all_chunks =
     (let parent_chunks = filter (\<lambda>c. level c = Parent) all_chunks;
          child_chunks = filter (\<lambda>c. level c = Child) all_chunks;
          parent_tokens = map estimated_tokens parent_chunks;
          child_tokens = map estimated_tokens child_chunks
      in (case average_tokens child_tokens of
           Inl e \<Rightarrow> Inl e
         | Inr avg_child_tokens \<Rightarrow>
             (case chunks_per_query (available_context cfg) avg_child_tokens of
                Inl e \<Rightarrow> Inl e
              | Inr max_chunks_per_query \<Rightarrow>
                  (case int_true_divide (int (sum_list parent_tokens)) (int (length parent_tokens)) of
                     Inl e \<Rightarrow> Inl e
                   | Inr avg_parent_tokens \<Rightarrow>
                       (case int_to_float (model_context_window cfg) of
                          Inl e \<Rightarrow> Inl e
                        | Inr w \<Rightarrow> (if w = 0 then Inl ZeroDivisionError else Inr ()))))))"

text \<open>The dictionary that \<^verbatim>\<open>_get_optimization_recommendations\<close> returns: its two entries.\<close>

record recommendations =
  chunk_size :: string
  retrieval :: string

definition get_optimization_recommendations :: "config \<Rightarrow> chunk list \<Rightarrow> py_error + recommendations" where
  "get_optimization_recommendations cfg all_chunks =
     (let child_chunks = filter (\<lambda>c. level c = Child) all_chunks
      in (case average_tokens (map estimated_tokens child_chunks) of
           Inl e \<Rightarrow> Inl e
         | Inr avg_child_tokens \<Rightarrow>
             (case chunks_per_query (available_context cfg) avg_child_tokens of
                Inl e \<Rightarrow> Inl e
              | Inr optimal_chunks \<Rightarrow>
                  Inr \<lparr>chunk_size =
                         (if float_less_int optimal_chunks 3
                          then ''Consider smaller child chunks for better context utilization''
                          else if float_greater_int optimal_chunks 8
                          then ''Consider larger child chunks for efficiency''
                          else ''Optimal: ~''
                               @ (case optimal_chunks of
                                    Finite r \<Rightarrow> str_nat (nat (round_half_even r))
                                  | PosInf \<Rightarrow> ''inf'' | NegInf \<Rightarrow> ''-inf'')
                               @ '' chunks per query''),
                        retrieval =
                         (if length child_chunks > 100
                          then ''Use semantic similarity + parent-child relationships for retrieval''
                          else ''Simple top-k retrieval should work well'')\<rparr>)))"

text \<open>
  \<^verbatim>\<open>create_hierarchical_chunks\<close>: the chunks are built and stored in
  \<^verbatim>\<open>self.all_chunks\<close>, then the metrics are computed, and the list is returned unless
  the metrics raised. The result is the final \<^verbatim>\<open>self.all_chunks\<close> with the returned
  value.
\<close>

definition create_hierarchical_chunks :: "config \<Rightarrow> (string \<Rightarrow> string) \<Rightarrow> (string \<times> string) list \<Rightarrow> chunk list \<times> (py_error + chunk list)" where
  "create_hierarchical_chunks cfg fp sections =
     (let all_chunks = all_chunks_of cfg fp sections
      in (all_chunks,
          (case calculate_optimization_metrics cfg all_chunks of
             Inl e \<Rightarrow> Inl e
           | Inr u \<Rightarrow> Inr all_chunks)))"

text \<open>
  The configuration that \<^verbatim>\<open>__init__\<close> sets for the default context window of 4096
  tokens (\<^verbatim>\<open>int(4096 * 0.70)\<close> is 2867).
\<close>

definition default_config :: config where
  "default_config =
     \<lparr>parent_chunk_size = 1200, child_chunk_size = 400, overlap_size = 50,
      available_context = 2867, model_context_window = 4096\<rparr>"

section \<open>Auxiliary notions of the proofs\<close>

text \<open>
  The contents of the parent chunks of a document: the document itself when it fits the
  parent size, its segments otherwise.
\<close>

definition parent_texts :: "config \<Rightarrow> string \<Rightarrow> string list" where
  "parent_texts cfg text =
     (if int (length text) \<le> parent_chunk_size cfg then [text]
      else smart_split_content text (parent_chunk_size cfg) (overlap_size cfg))"

text \<open>
  The contents of the child chunks of a parent content.
\<close>

definition child_texts :: "config \<Rightarrow> string \<Rightarrow> string list" where
  "child_texts cfg text =
     (if int (length text) \<le> child_chunk_size cfg then [text]
      else smart_split_content text (child_chunk_size cfg) (overlap_size cfg))"

text \<open>
  A parent chunk, at its position, after its children were built.
\<close>

definition link_parent :: "config \<Rightarrow> (string \<Rightarrow> string) \<Rightarrow> string \<Rightarrow> nat \<times> chunk \<Rightarrow> chunk" where
  "link_parent cfg fp sname ip =
     (snd ip)\<lparr>child_chunk_ids := Some (map chunk_id (create_child_chunks cfg fp sname (snd ip) (fst ip))),
              child_count := Some (length (create_child_chunks cfg fp sname (snd ip) (fst ip)))\<rparr>"

text \<open>
  The parents of a section, each with its own children.
\<close>

definition families :: "config \<Rightarrow> (string \<Rightarrow> string) \<Rightarrow> string \<times> string \<Rightarrow> (chunk \<times> chunk list) list" where
  "families cfg fp sec =
     map (\<lambda>ip. (link_parent cfg fp (fst sec) ip, create_child_chunks cfg fp (fst sec) (snd ip) (fst ip)))
       (enumerate 0 (create_parent_chunks cfg fp (fst sec) (snd sec)))"

text \<open>
  The chunks of a section in the order of \<^verbatim>\<open>self.all_chunks\<close>: the parents, then the children.
\<close>

definition section_chunks :: "(chunk \<times> chunk list) list \<Rightarrow> chunk list" where
  "section_chunks fams = map fst fams @ concat (map snd fams)"

text \<open>
  The children of the parent at position \<open>k\<close> of section \<open>nm\<close> with content \<open>t\<close>.
\<close>

definition children_of :: "config \<Rightarrow> (string \<Rightarrow> string) \<Rightarrow> string \<Rightarrow> nat \<Rightarrow> string \<Rightarrow> chunk list" where
  "children_of cfg fp nm k t =
     map (\<lambda>(i, u). \<lparr>chunk_id = nm @ ''_P'' @ str_nat (Suc k) @ ''_C'' @ str_nat i, level = Child,
                section_name = nm, parent_id = Some (nm @ ''_P'' @ str_nat (Suc k)), chunk_index = i,
                content = u, char_count = length u, estimated_tokens = length u div 4,
                content_hash = fp t,
                child_chunk_ids = None, child_count = None, global_id = None\<rparr>)
       (enumerate 1 (child_texts cfg t))"

text \<open>
  The linked parent at position \<open>k\<close> of section \<open>nm\<close> with content \<open>t\<close>.
\<close>

definition parent_of :: "config \<Rightarrow> (string \<Rightarrow> string) \<Rightarrow> string \<Rightarrow> nat \<Rightarrow> string \<Rightarrow> chunk" where
  "parent_of cfg fp nm k t =
     \<lparr>chunk_id = nm @ ''_P'' @ str_nat (Suc k), level = Parent, section_name = nm,
      parent_id = None, chunk_index = Suc k, content = t, char_count = length t,
      estimated_tokens = length t div 4, content_hash = fp t,
      child_chunk_ids = Some (map chunk_id (children_of cfg fp nm k t)),
      child_count = Some (length (children_of cfg fp nm k t)), global_id = None\<rparr>"

text \<open>
  All parents of a run with their children, in section order.
\<close>

definition run_families :: "config \<Rightarrow> (string \<Rightarrow> string) \<Rightarrow> (string \<times> string) list \<Rightarrow> (chunk \<times> chunk list) list" where
  "run_families cfg fp secs = concat (map (families cfg fp) secs)"

text \<open>
  The chunks of a run before they are numbered.
\<close>

definition run_base :: "config \<Rightarrow> (string \<Rightarrow> string) \<Rightarrow> (string \<times> string) list \<Rightarrow> chunk list" where
  "run_base cfg fp secs = concat (map (\<lambda>sec. section_chunks (families cfg fp sec)) secs)"

text \<open>
  In a chunk list, no child stands before a parent of the same section.
\<close>

definition parents_first :: "chunk list \<Rightarrow> bool" where
  "parents_first xs \<longleftrightarrow>
     (\<forall>i < length xs. \<forall>j < length xs.
        level (xs ! i) = Parent \<and> level (xs ! j) = Child \<and> section_name (xs ! i) = section_name (xs ! j)
        \<longrightarrow> i < j)"

text \<open>A small configuration and a run of two sections, used to evaluate the theorems.\<close>

definition small_config :: config where
  "small_config = default_config\<lparr>parent_chunk_size := 30, child_chunk_size := 10, overlap_size := 3\<rparr>"

definition two_sections :: "(string \<times> string) list" where
  "two_sections = [(''s'', ''aaaa bbbb\<newline>\<newline>cccc dddd''), (''t'', ''wxyz'')]"

text \<open>The characters of a text that are not white space, in order.\<close>

definition non_space :: "string \<Rightarrow> string" where
  "non_space s = filter (\<lambda>c. \<not> is_space c) s"

text \<open>
  The sentences of a text that alone exceed the budget: the sentences longer than
  \<open>target_size\<close> of the paragraphs longer than \<open>target_size\<close>.
\<close>

definition oversized_units :: "string \<Rightarrow> int \<Rightarrow> string list" where
  "oversized_units doc target_size =
     filter (\<lambda>s. target_size < int (length s))
       (concat (map split_sentences
          (filter (\<lambda>p. target_size < int (length p)) (split_paragraphs doc))))"

text \<open>
  An accumulator made of an oversized sentence: the sentence itself, or the sentence after
  an overlap of at most \<open>overlap\<close> characters and a blank.
\<close>

definition oversized_acc :: "string list \<Rightarrow> int \<Rightarrow> string \<Rightarrow> bool" where
  "oversized_acc units overlap x \<longleftrightarrow>
     (\<exists>s \<in> set units. x = s \<or> (\<exists>pre. int (length pre) \<le> max 0 overlap \<and> x = pre @ '' '' @ s))"

text \<open>A segment that arises from an oversized sentence: such an accumulator, stripped.\<close>

definition from_oversized_unit :: "string list \<Rightarrow> int \<Rightarrow> string \<Rightarrow> bool" where
  "from_oversized_unit units overlap c \<longleftrightarrow> (\<exists>x. oversized_acc units overlap x \<and> c = strip x)"

text \<open>
  The invariant of both loops of the splitter, for the sizes: every emitted segment and the
  accumulator are within the bound or made of an oversized sentence; a budget under which
  the accumulator is not empty is not negative.
\<close>

definition size_inv :: "string list \<Rightarrow> int \<Rightarrow> int \<Rightarrow> split_state \<Rightarrow> bool" where
  "size_inv units target_size overlap st \<longleftrightarrow>
     (\<forall>c \<in> set (fst st). int (length c) \<le> target_size + max 0 overlap + 1
                          \<or> from_oversized_unit units overlap c)
     \<and> (snd st = [] \<or> (0 \<le> target_size
           \<and> (int (length (snd st)) \<le> target_size + max 0 overlap + 1
                \<or> oversized_acc units overlap (snd st))))"

text \<open>
  A sequence of segments, each given as the overlap carried over from the previous
  segment and the rest: every overlap is a suffix of the previous segment, and has at
  most \<open>k\<close> characters. The first overlap is a suffix of \<open>prev\<close>.
\<close>

fun overlaps_chain :: "nat \<Rightarrow> string \<Rightarrow> (string \<times> string) list \<Rightarrow> bool" where
  "overlaps_chain k prev [] = True"
| "overlaps_chain k prev ((ov, rest) # ps) =
     (suffix ov prev \<and> length ov \<le> k \<and> overlaps_chain k (ov @ rest) ps)"

text \<open>
  The segment that the next overlap must be a suffix of.
\<close>

fun chain_end :: "string \<Rightarrow> (string \<times> string) list \<Rightarrow> string" where
  "chain_end prev [] = prev"
| "chain_end prev ((ov, rest) # ps) = chain_end (ov @ rest) ps"

text \<open>
  The invariant of both loops of the splitter, for the text: the emitted segments and the
  accumulator, without their white space, are overlaps and rests, and the rests together
  are the text \<open>seen\<close> so far.
\<close>

definition rebuild_inv :: "nat \<Rightarrow> string \<Rightarrow> split_state \<Rightarrow> bool" where
  "rebuild_inv k seen st \<longleftrightarrow>
     (\<exists>ps oc rc. map (\<lambda>(ov, rest). ov @ rest) ps = map non_space (fst st)
        \<and> non_space (snd st) = oc @ rc
        \<and> overlaps_chain k [] ps \<and> suffix oc (chain_end [] ps) \<and> length oc \<le> k
        \<and> concat (map snd ps) @ rc = seen)"

section \<open>Decimal strings and chunk ids\<close>

lemma digit_char_is_digit: "d < 10 \<Longrightarrow> digit_char d \<in> set ''0123456789''"
  unfolding digit_char_def by (rule nth_mem) simp

lemma digit_char_inj: "d < 10 \<Longrightarrow> e < 10 \<Longrightarrow> digit_char d = digit_char e \<Longrightarrow> d = e"
proof -
  assume a: "d < 10" "e < 10" "digit_char d = digit_char e"
  have dist: "distinct ''0123456789''" by simp
  from a show ?thesis unfolding digit_char_def
    using nth_eq_iff_index_eq [OF dist, of d e] by simp
qed

lemma str_nat_digits: "set (str_nat n) \<subseteq> set ''0123456789''"
proof (induction n rule: str_nat.induct)
  case (1 n)
  show ?case
  proof (cases "n < 10")
    case True
    then show ?thesis using digit_char_is_digit [of n] by (subst str_nat.simps) simp
  next
    case False
    have "n mod 10 < 10" by simp
    then have "digit_char (n mod 10) \<in> set ''0123456789''" by (rule digit_char_is_digit)
    with False "1" show ?thesis by (subst str_nat.simps) simp
  qed
qed

lemma str_nat_not_Nil: "str_nat n \<noteq> []"
  by (subst str_nat.simps) simp

lemma str_nat_length_ge2: "\<not> n < 10 \<Longrightarrow> 2 \<le> length (str_nat n)"
proof -
  assume "\<not> n < 10"
  then have "str_nat n = str_nat (n div 10) @ [digit_char (n mod 10)]" by (subst str_nat.simps) simp
  moreover have "1 \<le> length (str_nat (n div 10))" using str_nat_not_Nil [of "n div 10"] by (cases "str_nat (n div 10)") auto
  ultimately show ?thesis by simp
qed

lemma str_nat_inj: "str_nat m = str_nat n \<Longrightarrow> m = n"
proof (induction m arbitrary: n rule: str_nat.induct)
  case (1 m)
  show ?case
  proof (cases "m < 10")
    case True
    then have m1: "str_nat m = [digit_char m]" by (subst str_nat.simps) simp
    have "n < 10"
    proof (rule ccontr)
      assume "\<not> n < 10"
      then have "2 \<le> length (str_nat n)" by (rule str_nat_length_ge2)
      with m1 "1.prems" show False by simp
    qed
    then have "str_nat n = [digit_char n]" by (subst str_nat.simps) simp
    with m1 "1.prems" True \<open>n < 10\<close> show ?thesis by (auto dest: digit_char_inj)
  next
    case False
    then have m1: "str_nat m = str_nat (m div 10) @ [digit_char (m mod 10)]" by (subst str_nat.simps) simp
    have "\<not> n < 10"
    proof
      assume "n < 10"
      then have "str_nat n = [digit_char n]" by (subst str_nat.simps) simp
      with "1.prems" str_nat_length_ge2 [OF False] show False by simp
    qed
    then have n1: "str_nat n = str_nat (n div 10) @ [digit_char (n mod 10)]" by (subst str_nat.simps) simp
    from m1 n1 "1.prems" have a: "str_nat (m div 10) = str_nat (n div 10)" and b: "digit_char (m mod 10) = digit_char (n mod 10)" by auto
    from "1.IH" [OF False a] have "m div 10 = n div 10" .
    moreover from b have "m mod 10 = n mod 10" by (auto dest!: digit_char_inj [rotated 2])
    ultimately show ?thesis by (metis div_mult_mod_eq)
  qed
qed

lemma split_at_first:
  "y \<notin> set u \<Longrightarrow> y \<notin> set v \<Longrightarrow> u @ y # p = v @ y # q \<Longrightarrow> u = v \<and> p = q"
proof (induction u arbitrary: v)
  case Nil
  then show ?case by (cases v) auto
next
  case (Cons c u)
  then show ?case by (cases v) auto
qed

lemma sep_unique:
  assumes "y \<notin> set ds" "y \<notin> set es" "a @ [x, y] @ ds = b @ [x, y] @ es"
  shows "a = b \<and> ds = es"
proof -
  from assms(3) have "rev (a @ [x, y] @ ds) = rev (b @ [x, y] @ es)" by simp
  then have "rev ds @ y # (x # rev a) = rev es @ y # (x # rev b)" by simp
  with assms(1,2) have "rev ds = rev es \<and> x # rev a = x # rev b"
    using split_at_first [of y "rev ds" "rev es" "x # rev a" "x # rev b"] by simp
  then show ?thesis by simp
qed

lemma parent_id_inj:
  "a @ ''_P'' @ str_nat i = b @ ''_P'' @ str_nat j \<Longrightarrow> a = b \<and> i = j"
proof -
  assume h: "a @ ''_P'' @ str_nat i = b @ ''_P'' @ str_nat j"
  have "CHR ''P'' \<notin> set (str_nat i)" "CHR ''P'' \<notin> set (str_nat j)"
    using str_nat_digits [of i] str_nat_digits [of j] by auto
  with h have "a = b \<and> str_nat i = str_nat j" using sep_unique [of "CHR ''P''" "str_nat i" "str_nat j" a "CHR ''_''" b] by simp
  then show ?thesis by (auto dest: str_nat_inj)
qed

lemma child_id_inj:
  "a @ ''_C'' @ str_nat i = b @ ''_C'' @ str_nat j \<Longrightarrow> a = b \<and> i = j"
proof -
  assume h: "a @ ''_C'' @ str_nat i = b @ ''_C'' @ str_nat j"
  have "CHR ''C'' \<notin> set (str_nat i)" "CHR ''C'' \<notin> set (str_nat j)"
    using str_nat_digits [of i] str_nat_digits [of j] by auto
  with h have "a = b \<and> str_nat i = str_nat j" using sep_unique [of "CHR ''C''" "str_nat i" "str_nat j" a "CHR ''_''" b] by simp
  then show ?thesis by (auto dest: str_nat_inj)
qed

section \<open>The loops of the assembler as maps\<close>

lemma str_nat_1: "str_nat (Suc 0) = ''1''"
  by (subst str_nat.simps) (simp add: digit_char_def)

lemma create_parent_chunks_eq:
  "create_parent_chunks cfg fp sname text =
     map (\<lambda>(i, t). \<lparr>chunk_id = sname @ ''_P'' @ str_nat i, level = Parent, section_name = sname,
                parent_id = None, chunk_index = i, content = t, char_count = length t,
                estimated_tokens = length t div 4, content_hash = fp t,
                child_chunk_ids = None, child_count = None, global_id = None\<rparr>)
       (enumerate 1 (parent_texts cfg text))"
  by (simp add: create_parent_chunks_def parent_texts_def enumerate_eq_zip str_nat_1)

lemma create_child_chunks_eq:
  "create_child_chunks cfg fp sname p k =
     map (\<lambda>(i, t). \<lparr>chunk_id = sname @ ''_P'' @ str_nat (k + 1) @ ''_C'' @ str_nat i, level = Child,
                section_name = sname, parent_id = Some (chunk_id p), chunk_index = i,
                content = t, char_count = length t, estimated_tokens = length t div 4,
                content_hash = fp (content p),
                child_chunk_ids = None, child_count = None, global_id = None\<rparr>)
       (enumerate 1 (child_texts cfg (content p)))"
  by (simp add: create_child_chunks_def child_texts_def enumerate_eq_zip str_nat_1 Let_def)

lemma link_children_eq:
  "link_children cfg fp sname ips =
     (map (link_parent cfg fp sname) ips,
      concat (map (\<lambda>ip. create_child_chunks cfg fp sname (snd ip) (fst ip)) ips))"
  by (induction ips) (auto simp: link_parent_def Let_def)

lemma assign_global_ids_append:
  "assign_global_ids g (xs @ ys) = assign_global_ids g xs @ assign_global_ids (g + length xs) ys"
  by (induction xs arbitrary: g) auto

lemma length_assign_global_ids [simp]: "length (assign_global_ids g xs) = length xs"
  by (induction xs arbitrary: g) auto

lemma process_sections_eq:
  "process_sections cfg fp (acc, g) secs =
     (acc @ assign_global_ids g (concat (map (\<lambda>sec. section_chunks (families cfg fp sec)) secs)),
      g + length (concat (map (\<lambda>sec. section_chunks (families cfg fp sec)) secs)))"
proof (induction secs arbitrary: acc g)
  case Nil
  then show ?case by simp
next
  case (Cons sec secs)
  obtain nm doc where sec: "sec = (nm, doc)" by (cases sec)
  show ?case
    by (simp add: sec Cons.IH link_children_eq section_chunks_def families_def
        assign_global_ids_append comp_def Let_def add.assoc)
qed

lemma all_chunks_of_eq:
  "all_chunks_of cfg fp secs =
     assign_global_ids 1 (concat (map (\<lambda>sec. section_chunks (families cfg fp sec)) secs))"
  by (simp add: all_chunks_of_def process_sections_eq)

lemma map_global_id_assign:
  "map global_id (assign_global_ids g xs) = map Some [g ..< g + length xs]"
proof (induction xs arbitrary: g)
  case Nil
  then show ?case by simp
next
  case (Cons x xs)
  have "[g ..< g + length (x # xs)] = g # [Suc g ..< Suc g + length xs]"
    by (simp add: upt_rec)
  with Cons.IH [of "Suc g"] show ?case by simp
qed

lemma nth_assign_global_ids:
  "i < length xs \<Longrightarrow> assign_global_ids g xs ! i = (xs ! i)\<lparr>global_id := Some (g + i)\<rparr>"
proof (induction xs arbitrary: g i)
  case Nil
  then show ?case by simp
next
  case (Cons x xs)
  then show ?case by (cases i) auto
qed

lemma map_filter_assign:
  assumes "\<And>c n. P (c\<lparr>global_id := n\<rparr>) = P c" "\<And>c n. f (c\<lparr>global_id := n\<rparr>) = f c"
  shows "map f (filter P (assign_global_ids g xs)) = map f (filter P xs)"
  by (induction xs arbitrary: g) (auto simp: assms)

section \<open>Parents with their children\<close>

lemma enumerate_map_enumerate:
  "enumerate a (map g (enumerate (Suc a) xs)) = map (\<lambda>(k, t). (k, g (Suc k, t))) (enumerate a xs)"
  by (induction xs arbitrary: a) auto

lemma families_eq:
  "families cfg fp (nm, doc) =
     map (\<lambda>(k, t). (parent_of cfg fp nm k t, children_of cfg fp nm k t))
       (enumerate 0 (parent_texts cfg doc))"
  unfolding families_def create_parent_chunks_eq fst_conv snd_conv
  apply (simp only: One_nat_def enumerate_map_enumerate)
  apply (simp add: link_parent_def create_child_chunks_eq parent_of_def children_of_def case_prod_beta comp_def)
  done

section \<open>The chunks of a run\<close>

lemma all_chunks_of_base: "all_chunks_of cfg fp secs = assign_global_ids 1 (run_base cfg fp secs)"
  by (simp add: all_chunks_of_eq run_base_def)

lemma family_cases:
  assumes "fam \<in> set (families cfg fp sec)"
  obtains k t where "fam = (parent_of cfg fp (fst sec) k t, children_of cfg fp (fst sec) k t)"
    "k < length (parent_texts cfg (snd sec))" "t = parent_texts cfg (snd sec) ! k"
proof -
  obtain nm doc where sec: "sec = (nm, doc)" by (cases sec)
  from assms obtain kt where kt: "kt \<in> set (enumerate 0 (parent_texts cfg doc))"
    and fam: "fam = (parent_of cfg fp nm (fst kt) (snd kt), children_of cfg fp nm (fst kt) (snd kt))"
    by (auto simp: sec families_eq case_prod_beta)
  from kt have "fst kt < length (parent_texts cfg doc)" "snd kt = parent_texts cfg doc ! fst kt"
    by (auto simp: in_set_enumerate_eq)
  with fam that [of "fst kt" "snd kt"] show thesis by (simp add: sec)
qed

lemma run_family_cases:
  assumes "fam \<in> set (run_families cfg fp secs)"
  obtains sec k t where "sec \<in> set secs"
    "fam = (parent_of cfg fp (fst sec) k t, children_of cfg fp (fst sec) k t)"
proof -
  from assms obtain sec where sec: "sec \<in> set secs" "fam \<in> set (families cfg fp sec)"
    by (auto simp: run_families_def)
  from sec(2) obtain k t where "fam = (parent_of cfg fp (fst sec) k t, children_of cfg fp (fst sec) k t)"
    by (rule family_cases)
  with sec(1) show thesis by (rule that)
qed

lemma child_of_facts:
  assumes "c \<in> set (children_of cfg fp nm k t)"
  shows "level c = Child" "section_name c = nm" "parent_id c = Some (nm @ ''_P'' @ str_nat (Suc k))"
    "chunk_id c = nm @ ''_P'' @ str_nat (Suc k) @ ''_C'' @ str_nat (chunk_index c)"
    "char_count c = length (content c)" "content c \<in> set (child_texts cfg t)"
  using assms by (auto simp: children_of_def in_set_enumerate_eq)

lemma parent_of_facts:
  "level (parent_of cfg fp nm k t) = Parent" "section_name (parent_of cfg fp nm k t) = nm"
  "chunk_id (parent_of cfg fp nm k t) = nm @ ''_P'' @ str_nat (Suc k)"
  "child_chunk_ids (parent_of cfg fp nm k t) = Some (map chunk_id (children_of cfg fp nm k t))"
  "child_count (parent_of cfg fp nm k t) = Some (length (children_of cfg fp nm k t))"
  "content (parent_of cfg fp nm k t) = t"
  "char_count (parent_of cfg fp nm k t) = length t"
  by (simp_all add: parent_of_def)

lemma map_fst_enumerate_fun:
  "map (\<lambda>x. f (fst x)) (enumerate n xs) = map f [n ..< n + length xs]"
  unfolding map_fst_enumerate [symmetric] by (simp only: map_map comp_def)

lemma children_ids:
  "map chunk_id (children_of cfg fp nm k t)
     = map (\<lambda>i. nm @ ''_P'' @ str_nat (Suc k) @ ''_C'' @ str_nat i)
         [1 ..< 1 + length (child_texts cfg t)]"
proof -
  have "map chunk_id (children_of cfg fp nm k t)
        = map (\<lambda>x. nm @ ''_P'' @ str_nat (Suc k) @ ''_C'' @ str_nat (fst x))
            (enumerate 1 (child_texts cfg t))"
    by (simp add: children_of_def case_prod_beta comp_def)
  also have "\<dots> = map (\<lambda>i. nm @ ''_P'' @ str_nat (Suc k) @ ''_C'' @ str_nat i)
         [1 ..< 1 + length (child_texts cfg t)]"
    by (rule map_fst_enumerate_fun)
  finally show ?thesis .
qed

lemma distinct_children_ids: "distinct (map chunk_id (children_of cfg fp nm k t))"
  unfolding children_ids
  by (simp add: distinct_map inj_on_def del: upt_Suc) (auto dest: str_nat_inj)

section \<open>Parent ids are distinct\<close>

lemma family_parent_ids:
  "map (\<lambda>fam. chunk_id (fst fam)) (families cfg fp (nm, doc))
     = map (\<lambda>k. nm @ ''_P'' @ str_nat (Suc k)) [0 ..< 0 + length (parent_texts cfg doc)]"
proof -
  have "map (\<lambda>fam. chunk_id (fst fam)) (families cfg fp (nm, doc))
        = map (\<lambda>x. nm @ ''_P'' @ str_nat (Suc (fst x))) (enumerate 0 (parent_texts cfg doc))"
    by (simp add: families_eq case_prod_beta comp_def parent_of_def)
  also have "\<dots> = map (\<lambda>k. nm @ ''_P'' @ str_nat (Suc k)) [0 ..< 0 + length (parent_texts cfg doc)]"
    by (rule map_fst_enumerate_fun)
  finally show ?thesis .
qed

lemma distinct_run_parent_ids:
  "distinct (map fst secs) \<Longrightarrow> distinct (map (\<lambda>fam. chunk_id (fst fam)) (run_families cfg fp secs))"
proof (induction secs)
  case Nil
  then show ?case by (simp add: run_families_def)
next
  case (Cons sec secs)
  obtain nm doc where sec: "sec = (nm, doc)" by (cases sec)
  have d1: "distinct (map (\<lambda>fam. chunk_id (fst fam)) (families cfg fp (nm, doc)))"
    unfolding family_parent_ids
    by (simp add: distinct_map inj_on_def del: upt_Suc) (auto dest: str_nat_inj)
  have d2: "distinct (map (\<lambda>fam. chunk_id (fst fam)) (run_families cfg fp secs))"
    using Cons by simp
  have disj: "fam \<in> set (families cfg fp (nm, doc)) \<Longrightarrow> fam' \<in> set (run_families cfg fp secs)
      \<Longrightarrow> chunk_id (fst fam) \<noteq> chunk_id (fst fam')" for fam fam'
  proof
    assume a: "fam \<in> set (families cfg fp (nm, doc))" and b: "fam' \<in> set (run_families cfg fp secs)"
      and e: "chunk_id (fst fam) = chunk_id (fst fam')"
    from a obtain k t where fam: "fam = (parent_of cfg fp nm k t, children_of cfg fp nm k t)"
      by (auto elim: family_cases)
    from b obtain sec' k' t' where sec': "sec' \<in> set secs"
      and fam': "fam' = (parent_of cfg fp (fst sec') k' t', children_of cfg fp (fst sec') k' t')"
      by (rule run_family_cases)
    from e fam fam' have "nm @ ''_P'' @ str_nat (Suc k) = fst sec' @ ''_P'' @ str_nat (Suc k')"
      by (simp add: parent_of_facts)
    then have "nm = fst sec'" using parent_id_inj [of nm "Suc k" "fst sec'" "Suc k'"] by simp
    with sec' Cons.prems sec show False by auto
  qed
  have "run_families cfg fp (sec # secs) = families cfg fp (nm, doc) @ run_families cfg fp secs"
    by (simp add: run_families_def sec)
  with d1 d2 disj show ?case by auto
qed

lemma select_family:
  "distinct (map f fams) \<Longrightarrow> fam \<in> set fams \<Longrightarrow> filter (\<lambda>x. f x = f fam) fams = [fam]"
proof (induction fams)
  case Nil
  then show ?case by simp
next
  case (Cons a fams)
  show ?case
  proof (cases "a = fam")
    case True
    with Cons.prems have "f fam \<notin> f ` set fams" by simp
    then have "filter (\<lambda>x. f x = f fam) fams = []"
      by (auto simp: filter_empty_conv image_iff)
    with True show ?thesis by simp
  next
    case False
    with Cons.prems have "fam \<in> set fams" "f a \<noteq> f fam" by auto
    with Cons show ?thesis by simp
  qed
qed

text \<open>A run's families are well formed.\<close>

lemma run_family_levels:
  assumes "fam \<in> set (run_families cfg fp secs)"
  shows "level (fst fam) = Parent"
    and "c \<in> set (snd fam) \<Longrightarrow> level c = Child \<and> parent_id c = Some (chunk_id (fst fam))"
  using assms by (auto elim!: run_family_cases simp: parent_of_facts child_of_facts)

lemma run_base_families:
  "run_base cfg fp secs = concat (map section_chunks (map (families cfg fp) secs))"
  by (simp add: run_base_def comp_def)

lemma concat_map_if:
  "concat (map (\<lambda>x. if P x then g x else []) xs) = concat (map g (filter P xs))"
  by (induction xs) auto

lemma filter_section_children:
  assumes "\<And>fam. fam \<in> set fams \<Longrightarrow> level (fst fam) = Parent"
    and "\<And>fam c. fam \<in> set fams \<Longrightarrow> c \<in> set (snd fam) \<Longrightarrow> level c = Child \<and> parent_id c = Some (chunk_id (fst fam))"
  shows "filter (\<lambda>c. level c = Child \<and> parent_id c = Some pid) (section_chunks fams)
         = concat (map snd (filter (\<lambda>fam. chunk_id (fst fam) = pid) fams))"
proof -
  let ?Q = "\<lambda>c. level c = Child \<and> parent_id c = Some pid"
  have ps: "filter ?Q (map fst fams) = []"
    using assms(1) by (auto simp: filter_empty_conv)
  have c: "filter ?Q (snd fam) = (if chunk_id (fst fam) = pid then snd fam else [])"
    if "fam \<in> set fams" for fam
    using assms(2) [OF that] by (auto simp: filter_empty_conv filter_id_conv)
  have "filter ?Q (concat (map snd fams)) = concat (map (\<lambda>fam. filter ?Q (snd fam)) fams)"
    by (simp add: filter_concat comp_def)
  also have "\<dots> = concat (map (\<lambda>fam. if chunk_id (fst fam) = pid then snd fam else []) fams)"
    using c by (simp cong: map_cong)
  also have "\<dots> = concat (map snd (filter (\<lambda>fam. chunk_id (fst fam) = pid) fams))"
    by (rule concat_map_if)
  finally show ?thesis using ps by (simp add: section_chunks_def)
qed

lemma filter_section_parents:
  assumes "\<And>fam. fam \<in> set fams \<Longrightarrow> level (fst fam) = Parent"
    and "\<And>fam c. fam \<in> set fams \<Longrightarrow> c \<in> set (snd fam) \<Longrightarrow> level c = Child \<and> parent_id c = Some (chunk_id (fst fam))"
  shows "filter (\<lambda>p. level p = Parent \<and> chunk_id p = pid) (section_chunks fams)
         = map fst (filter (\<lambda>fam. chunk_id (fst fam) = pid) fams)"
proof -
  have "filter (\<lambda>p. level p = Parent \<and> chunk_id p = pid) (concat (map snd fams)) = []"
    using assms(2) by (auto simp: filter_empty_conv)
  moreover have "filter (\<lambda>p. level p = Parent \<and> chunk_id p = pid) (map fst fams)
      = map fst (filter (\<lambda>fam. chunk_id (fst fam) = pid) fams)"
    using assms(1) by (induction fams) auto
  ultimately show ?thesis by (simp add: section_chunks_def)
qed

lemma filter_run_children:
  "filter (\<lambda>c. level c = Child \<and> parent_id c = Some pid) (run_base cfg fp secs)
     = concat (map snd (filter (\<lambda>fam. chunk_id (fst fam) = pid) (run_families cfg fp secs)))"
proof (induction secs)
  case Nil
  then show ?case by (simp add: run_base_def run_families_def)
next
  case (Cons sec secs)
  have "filter (\<lambda>c. level c = Child \<and> parent_id c = Some pid) (section_chunks (families cfg fp sec))
         = concat (map snd (filter (\<lambda>fam. chunk_id (fst fam) = pid) (families cfg fp sec)))"
  proof (rule filter_section_children)
    fix fam assume "fam \<in> set (families cfg fp sec)"
    then have "fam \<in> set (run_families cfg fp [sec])" by (simp add: run_families_def)
    then show "level (fst fam) = Parent" by (rule run_family_levels)
  next
    fix fam c assume "fam \<in> set (families cfg fp sec)" and c: "c \<in> set (snd fam)"
    then have "fam \<in> set (run_families cfg fp [sec])" by (simp add: run_families_def)
    then show "level c = Child \<and> parent_id c = Some (chunk_id (fst fam))" using c by (rule run_family_levels)
  qed
  with Cons show ?case by (simp add: run_base_def run_families_def)
qed

lemma filter_run_parents:
  "filter (\<lambda>p. level p = Parent \<and> chunk_id p = pid) (run_base cfg fp secs)
     = map fst (filter (\<lambda>fam. chunk_id (fst fam) = pid) (run_families cfg fp secs))"
proof (induction secs)
  case Nil
  then show ?case by (simp add: run_base_def run_families_def)
next
  case (Cons sec secs)
  have "filter (\<lambda>p. level p = Parent \<and> chunk_id p = pid) (section_chunks (families cfg fp sec))
         = map fst (filter (\<lambda>fam. chunk_id (fst fam) = pid) (families cfg fp sec))"
  proof (rule filter_section_parents)
    fix fam assume "fam \<in> set (families cfg fp sec)"
    then have "fam \<in> set (run_families cfg fp [sec])" by (simp add: run_families_def)
    then show "level (fst fam) = Parent" by (rule run_family_levels)
  next
    fix fam c assume "fam \<in> set (families cfg fp sec)" and c: "c \<in> set (snd fam)"
    then have "fam \<in> set (run_families cfg fp [sec])" by (simp add: run_families_def)
    then show "level c = Child \<and> parent_id c = Some (chunk_id (fst fam))" using c by (rule run_family_levels)
  qed
  with Cons show ?case by (simp add: run_base_def run_families_def)
qed

lemma set_run_base:
  "set (run_base cfg fp secs)
     = fst ` set (run_families cfg fp secs) \<union> (\<Union>fam \<in> set (run_families cfg fp secs). set (snd fam))"
  by (induction secs) (auto simp: run_base_def run_families_def section_chunks_def)

section \<open>Linkage of parents and children\<close>

lemma set_assign_global_ids:
  "x \<in> set (assign_global_ids g xs) \<Longrightarrow> \<exists>y \<in> set xs. \<exists>n. x = y\<lparr>global_id := Some n\<rparr>"
  by (induction xs arbitrary: g) auto

lemma assign_global_ids_member:
  "y \<in> set xs \<Longrightarrow> \<exists>n. y\<lparr>global_id := Some n\<rparr> \<in> set (assign_global_ids g xs)"
  by (induction xs arbitrary: g) auto

lemma filter_assign_single:
  assumes "\<And>c n. P (c\<lparr>global_id := n\<rparr>) = P c"
  shows "filter P xs = [x] \<Longrightarrow> \<exists>n. filter P (assign_global_ids g xs) = [x\<lparr>global_id := Some n\<rparr>]"
proof (induction xs arbitrary: g)
  case Nil
  then show ?case by simp
next
  case (Cons a xs)
  show ?case
  proof (cases "P a")
    case True
    with Cons.prems have ax: "a = x" and e: "filter P xs = []" by auto
    from e have "filter P (assign_global_ids (g + 1) xs) = []"
      by (auto simp: filter_empty_conv assms dest!: set_assign_global_ids)
    with True ax have "filter P (assign_global_ids g (a # xs)) = [x\<lparr>global_id := Some g\<rparr>]"
      by (simp add: assms)
    then show ?thesis by blast
  next
    case False
    with Cons.prems have "filter P xs = [x]" by simp
    from Cons.IH [OF this, of "g + 1"] False show ?thesis by (simp add: assms)
  qed
qed

lemma count_list_distinct: "distinct xs \<Longrightarrow> x \<in> set xs \<Longrightarrow> count_list xs x = 1"
  by (induction xs) (auto simp: count_list_0_iff)

lemma run_base_child:
  assumes "c \<in> set (run_base cfg fp secs)" "level c = Child"
  obtains fam where "fam \<in> set (run_families cfg fp secs)" "c \<in> set (snd fam)"
proof -
  from assms(1) have "c \<in> fst ` set (run_families cfg fp secs) \<or> (\<exists>fam \<in> set (run_families cfg fp secs). c \<in> set (snd fam))"
    by (simp add: set_run_base)
  then show thesis
  proof
    assume "c \<in> fst ` set (run_families cfg fp secs)"
    then obtain fam where "fam \<in> set (run_families cfg fp secs)" "c = fst fam" by auto
    then have "level c = Parent" by (simp add: run_family_levels(1))
    with assms(2) show thesis by simp
  next
    assume "\<exists>fam \<in> set (run_families cfg fp secs). c \<in> set (snd fam)"
    then show thesis using that by auto
  qed
qed

lemma run_base_parent:
  assumes "p \<in> set (run_base cfg fp secs)" "level p = Parent"
  obtains fam where "fam \<in> set (run_families cfg fp secs)" "p = fst fam"
proof -
  from assms(1) have "p \<in> fst ` set (run_families cfg fp secs) \<or> (\<exists>fam \<in> set (run_families cfg fp secs). p \<in> set (snd fam))"
    by (simp add: set_run_base)
  then show thesis
  proof
    assume "p \<in> fst ` set (run_families cfg fp secs)"
    then show thesis using that by auto
  next
    assume "\<exists>fam \<in> set (run_families cfg fp secs). p \<in> set (snd fam)"
    then obtain fam where "fam \<in> set (run_families cfg fp secs)" "p \<in> set (snd fam)" by auto
    then have "level p = Child" by (simp add: run_family_levels(2))
    with assms(2) show thesis by simp
  qed
qed

lemma run_family_ids:
  assumes "fam \<in> set (run_families cfg fp secs)"
  shows "child_chunk_ids (fst fam) = Some (map chunk_id (snd fam))"
    and "child_count (fst fam) = Some (length (snd fam))"
    and "distinct (map chunk_id (snd fam))"
  using assms by (auto elim!: run_family_cases simp: parent_of_facts distinct_children_ids)

lemma linkage_child:
  assumes d: "distinct (map fst secs)"
    and c: "c \<in> set (all_chunks_of cfg fp secs)" and lc: "level c = Child"
  shows "\<exists>p. filter (\<lambda>p. level p = Parent \<and> Some (chunk_id p) = parent_id c) (all_chunks_of cfg fp secs) = [p]
             \<and> (\<exists>ids. child_chunk_ids p = Some ids \<and> count_list ids (chunk_id c) = 1)"
proof -
  from c have "c \<in> set (assign_global_ids 1 (run_base cfg fp secs))"
    by (simp only: all_chunks_of_base)
  from set_assign_global_ids [OF this]
  obtain c' n where c': "c' \<in> set (run_base cfg fp secs)" and cc: "c = c'\<lparr>global_id := Some n\<rparr>"
    by blast
  from lc cc have "level c' = Child" by simp
  with c' obtain fam where fam: "fam \<in> set (run_families cfg fp secs)" and cin: "c' \<in> set (snd fam)"
    by (rule run_base_child)
  from run_family_levels(2) [OF fam cin] have pid: "parent_id c' = Some (chunk_id (fst fam))" by simp
  let ?P = "\<lambda>p. level p = Parent \<and> chunk_id p = chunk_id (fst fam)"
  have "filter (\<lambda>x. chunk_id (fst x) = chunk_id (fst fam)) (run_families cfg fp secs) = [fam]"
    using select_family [OF distinct_run_parent_ids [OF d] fam] .
  then have base: "filter ?P (run_base cfg fp secs) = [fst fam]"
    by (simp add: filter_run_parents)
  have "\<exists>m. filter ?P (assign_global_ids 1 (run_base cfg fp secs)) = [(fst fam)\<lparr>global_id := Some m\<rparr>]"
    by (rule filter_assign_single) (simp, rule base)
  then obtain m where m: "filter ?P (all_chunks_of cfg fp secs) = [(fst fam)\<lparr>global_id := Some m\<rparr>]"
    unfolding all_chunks_of_base by blast
  have e: "parent_id c = Some (chunk_id (fst fam))"
    using pid cc by simp
  have f: "filter (\<lambda>p. level p = Parent \<and> Some (chunk_id p) = parent_id c) (all_chunks_of cfg fp secs)
      = [(fst fam)\<lparr>global_id := Some m\<rparr>]"
    unfolding e using m by simp
  have i: "child_chunk_ids ((fst fam)\<lparr>global_id := Some m\<rparr>) = Some (map chunk_id (snd fam))"
    using run_family_ids(1) [OF fam] by simp
  have "chunk_id c = chunk_id c'" using cc by simp
  with cin have "chunk_id c \<in> set (map chunk_id (snd fam))" by simp
  with run_family_ids(3) [OF fam] have n: "count_list (map chunk_id (snd fam)) (chunk_id c) = 1"
    by (rule count_list_distinct)
  from f i n show ?thesis by blast
qed

lemma linkage_parent:
  assumes d: "distinct (map fst secs)"
    and p: "p \<in> set (all_chunks_of cfg fp secs)" and lp: "level p = Parent"
  shows "child_chunk_ids p = Some (map chunk_id (filter (\<lambda>c. level c = Child \<and> parent_id c = Some (chunk_id p)) (all_chunks_of cfg fp secs)))
       \<and> child_count p = Some (length (filter (\<lambda>c. level c = Child \<and> parent_id c = Some (chunk_id p)) (all_chunks_of cfg fp secs)))"
proof -
  from p have "p \<in> set (assign_global_ids 1 (run_base cfg fp secs))"
    by (simp only: all_chunks_of_base)
  from set_assign_global_ids [OF this]
  obtain p' n where p': "p' \<in> set (run_base cfg fp secs)" and pp: "p = p'\<lparr>global_id := Some n\<rparr>"
    by blast
  have "level p' = level p" by (simp add: pp)
  with lp have "level p' = Parent" by simp
  with p' obtain fam where fam: "fam \<in> set (run_families cfg fp secs)" and pf: "p' = fst fam"
    by (rule run_base_parent)
  have idp: "chunk_id p = chunk_id (fst fam)" by (simp add: pp pf)
  have cip: "child_chunk_ids p = child_chunk_ids (fst fam)" by (simp add: pp pf)
  have ccp: "child_count p = child_count (fst fam)" by (simp add: pp pf)
  let ?Q = "\<lambda>c. level c = Child \<and> parent_id c = Some (chunk_id (fst fam))"
  have sel: "filter (\<lambda>x. chunk_id (fst x) = chunk_id (fst fam)) (run_families cfg fp secs) = [fam]"
    using select_family [OF distinct_run_parent_ids [OF d] fam] .
  have "map chunk_id (filter ?Q (all_chunks_of cfg fp secs)) = map chunk_id (filter ?Q (run_base cfg fp secs))"
    unfolding all_chunks_of_base by (rule map_filter_assign) simp_all
  also have "\<dots> = map chunk_id (snd fam)"
    by (simp only: filter_run_children sel) simp
  finally have ids: "map chunk_id (filter ?Q (all_chunks_of cfg fp secs)) = map chunk_id (snd fam)" .
  from arg_cong [OF this, of length]
  have "length (filter ?Q (all_chunks_of cfg fp secs)) = length (snd fam)"
    by (simp only: length_map)
  with ids run_family_ids(1,2) [OF fam] show ?thesis
    unfolding idp cip ccp by simp
qed

text \<open>
  C7. When the section names are distinct (they are the keys of a dictionary), every child
  chunk of a run names exactly one parent chunk of the run, whose list of child ids
  contains the child's id exactly once; and the child ids of every parent are the ids of
  the child chunks of the run that name it, in their order, with their number as the
  child count.
\<close>

theorem C7_parent_child_linkage:
  assumes "distinct (map fst secs)"
  shows "(\<forall>c \<in> set (all_chunks_of cfg fp secs). level c = Child \<longrightarrow>
            (\<exists>p. filter (\<lambda>p. level p = Parent \<and> Some (chunk_id p) = parent_id c) (all_chunks_of cfg fp secs) = [p]
               \<and> (\<exists>ids. child_chunk_ids p = Some ids \<and> count_list ids (chunk_id c) = 1)))
       \<and> (\<forall>p \<in> set (all_chunks_of cfg fp secs). level p = Parent \<longrightarrow>
            child_chunk_ids p = Some (map chunk_id (filter (\<lambda>c. level c = Child \<and> parent_id c = Some (chunk_id p)) (all_chunks_of cfg fp secs)))
          \<and> child_count p = Some (length (filter (\<lambda>c. level c = Child \<and> parent_id c = Some (chunk_id p)) (all_chunks_of cfg fp secs))))"
  using linkage_child [OF assms] linkage_parent [OF assms] by blast

section \<open>Global sequence numbers\<close>

lemma parents_first_append:
  assumes "parents_first xs" "parents_first ys"
    and "\<And>c p. c \<in> set xs \<Longrightarrow> p \<in> set ys \<Longrightarrow> level c = Child \<Longrightarrow> level p = Parent
           \<Longrightarrow> section_name p \<noteq> section_name c"
  shows "parents_first (xs @ ys)"
  unfolding parents_first_def
proof (intro allI impI)
  fix i j
  assume i: "i < length (xs @ ys)" and j: "j < length (xs @ ys)"
    and h: "level ((xs @ ys) ! i) = Parent \<and> level ((xs @ ys) ! j) = Child
            \<and> section_name ((xs @ ys) ! i) = section_name ((xs @ ys) ! j)"
  show "i < j"
  proof (cases "i < length xs")
    case ix: True
    show ?thesis
    proof (cases "j < length xs")
      case True
      with ix h assms(1) show ?thesis by (simp add: parents_first_def nth_append)
    next
      case False
      with ix show ?thesis by simp
    qed
  next
    case iy: False
    show ?thesis
    proof (cases "j < length xs")
      case True
      from iy i have "ys ! (i - length xs) \<in> set ys" by simp
      moreover from True have "xs ! j \<in> set xs" by simp
      ultimately have "section_name (ys ! (i - length xs)) \<noteq> section_name (xs ! j)"
        using h iy True assms(3) [of "xs ! j" "ys ! (i - length xs)"] by (simp add: nth_append)
      with h iy True show ?thesis by (simp add: nth_append)
    next
      case False
      from iy i have "i - length xs < length ys" by simp
      moreover from False j have "j - length xs < length ys" by simp
      ultimately have "i - length xs < j - length xs"
        using h iy False assms(2) by (simp add: parents_first_def nth_append)
      then show ?thesis by simp
    qed
  qed
qed

lemma section_chunks_levels:
  assumes "fam \<in> set (families cfg fp sec)"
  shows "level (fst fam) = Parent" "section_name (fst fam) = fst sec"
    and "c \<in> set (snd fam) \<Longrightarrow> level c = Child \<and> section_name c = fst sec"
  using assms by (auto elim!: family_cases simp: parent_of_facts child_of_facts)

lemma section_chunks_names:
  assumes "c \<in> set (section_chunks (families cfg fp sec))"
  shows "section_name c = fst sec"
proof -
  from assms consider fam where "fam \<in> set (families cfg fp sec)" "c = fst fam"
    | fam where "fam \<in> set (families cfg fp sec)" "c \<in> set (snd fam)"
    by (auto simp: section_chunks_def)
  then show ?thesis
  proof cases
    case 1
    then show ?thesis by (simp add: section_chunks_levels(2))
  next
    case 2
    then show ?thesis by (simp add: section_chunks_levels(3))
  qed
qed

lemma parents_first_section: "parents_first (section_chunks (families cfg fp sec))"
proof -
  let ?F = "families cfg fp sec"
  have a: "parents_first (map fst ?F)"
  proof -
    have "level (map fst ?F ! j) = Parent" if "j < length (map fst ?F)" for j
    proof -
      from that have "?F ! j \<in> set ?F" by simp
      then have "level (fst (?F ! j)) = Parent" by (rule section_chunks_levels)
      with that show ?thesis by simp
    qed
    then show ?thesis by (simp add: parents_first_def)
  qed
  have b: "parents_first (concat (map snd ?F))"
  proof -
    have "level (concat (map snd ?F) ! i) = Child" if "i < length (concat (map snd ?F))" for i
    proof -
      from that have "concat (map snd ?F) ! i \<in> set (concat (map snd ?F))" by (rule nth_mem)
      then obtain fam where "fam \<in> set ?F" "concat (map snd ?F) ! i \<in> set (snd fam)" by auto
      then show ?thesis by (simp add: section_chunks_levels(3))
    qed
    then show ?thesis by (simp add: parents_first_def)
  qed
  have c: "level c = Parent" if "c \<in> set (map fst ?F)" for c
  proof -
    from that obtain fam where "fam \<in> set ?F" "c = fst fam" by auto
    then show ?thesis by (simp add: section_chunks_levels(1))
  qed
  show ?thesis unfolding section_chunks_def
    by (rule parents_first_append [OF a b]) (use c in auto)
qed

lemma parents_first_run:
  "distinct (map fst secs) \<Longrightarrow> parents_first (run_base cfg fp secs)"
proof (induction secs)
  case Nil
  then show ?case by (simp add: run_base_def parents_first_def)
next
  case (Cons sec secs)
  have rest: "section_name p \<in> fst ` set secs" if "p \<in> set (run_base cfg fp secs)" for p
    using that by (auto simp: run_base_def dest: section_chunks_names)
  have "parents_first (section_chunks (families cfg fp sec) @ run_base cfg fp secs)"
  proof (rule parents_first_append)
    show "parents_first (section_chunks (families cfg fp sec))" by (rule parents_first_section)
    show "parents_first (run_base cfg fp secs)" using Cons by simp
  next
    fix c p
    assume "c \<in> set (section_chunks (families cfg fp sec))" "p \<in> set (run_base cfg fp secs)"
    then have "section_name c = fst sec" "section_name p \<in> fst ` set secs"
      by (auto dest: section_chunks_names rest)
    moreover from Cons.prems have "fst sec \<notin> fst ` set secs" by simp
    ultimately show "section_name p \<noteq> section_name c" by metis
  qed
  then show ?case by (simp add: run_base_def)
qed

lemma parents_numbered_first:
  assumes d: "distinct (map fst secs)"
    and p: "p \<in> set (all_chunks_of cfg fp secs)" and c: "c \<in> set (all_chunks_of cfg fp secs)"
    and lv: "level p = Parent" "level c = Child" and sn: "section_name p = section_name c"
  shows "\<exists>m n. global_id p = Some m \<and> global_id c = Some n \<and> m < n"
proof -
  let ?B = "run_base cfg fp secs"
  from p obtain i where i: "i < length ?B" and pi: "p = assign_global_ids 1 ?B ! i"
    by (auto simp: all_chunks_of_base in_set_conv_nth)
  from c obtain j where j: "j < length ?B" and cj: "c = assign_global_ids 1 ?B ! j"
    by (auto simp: all_chunks_of_base in_set_conv_nth)
  have pe: "p = (?B ! i)\<lparr>global_id := Some (1 + i)\<rparr>" unfolding pi by (rule nth_assign_global_ids [OF i])
  have ce: "c = (?B ! j)\<lparr>global_id := Some (1 + j)\<rparr>" unfolding cj by (rule nth_assign_global_ids [OF j])
  have "level (?B ! i) = Parent" "level (?B ! j) = Child" "section_name (?B ! i) = section_name (?B ! j)"
    using lv sn by (simp_all add: pe ce)
  with parents_first_run [OF d, of cfg fp] i j have "i < j" by (simp add: parents_first_def)
  moreover have "global_id p = Some (1 + i)" "global_id c = Some (1 + j)" by (simp_all add: pe ce)
  ultimately show ?thesis by simp
qed

text \<open>
  C6. The global ids of the flat chunk list are 1, 2, 3, ... in list order: one counter,
  started at 1 and never reset. When the section names are distinct (they are the keys of
  a dictionary), every parent of a section has a smaller global id than every child of
  that section.
\<close>

theorem C6_global_ids_contiguous:
  "map global_id (all_chunks_of cfg fp secs) = map Some [1 ..< 1 + length (all_chunks_of cfg fp secs)]
   \<and> (distinct (map fst secs) \<longrightarrow>
        (\<forall>p \<in> set (all_chunks_of cfg fp secs). \<forall>c \<in> set (all_chunks_of cfg fp secs).
           level p = Parent \<and> level c = Child \<and> section_name p = section_name c \<longrightarrow>
           (\<exists>m n. global_id p = Some m \<and> global_id c = Some n \<and> m < n)))"
proof (rule conjI)
  show "map global_id (all_chunks_of cfg fp secs) = map Some [1 ..< 1 + length (all_chunks_of cfg fp secs)]"
    unfolding all_chunks_of_base by (simp only: map_global_id_assign length_assign_global_ids)
  show "distinct (map fst secs) \<longrightarrow>
        (\<forall>p \<in> set (all_chunks_of cfg fp secs). \<forall>c \<in> set (all_chunks_of cfg fp secs).
           level p = Parent \<and> level c = Child \<and> section_name p = section_name c \<longrightarrow>
           (\<exists>m n. global_id p = Some m \<and> global_id c = Some n \<and> m < n))"
    using parents_numbered_first [of secs _ cfg fp] by blast
qed

section \<open>Child ids\<close>

lemma child_id_shape:
  assumes c: "c \<in> set (all_chunks_of cfg fp secs)" and lc: "level c = Child"
  shows "\<exists>pid. parent_id c = Some pid \<and> chunk_id c = pid @ ''_C'' @ str_nat (chunk_index c)
           \<and> (\<exists>p \<in> set (all_chunks_of cfg fp secs). level p = Parent \<and> chunk_id p = pid
                 \<and> chunk_id p = section_name p @ ''_P'' @ str_nat (chunk_index p))"
proof -
  from c have "c \<in> set (assign_global_ids 1 (run_base cfg fp secs))"
    by (simp only: all_chunks_of_base)
  from set_assign_global_ids [OF this]
  obtain c' n where c': "c' \<in> set (run_base cfg fp secs)" and cc: "c = c'\<lparr>global_id := Some n\<rparr>"
    by blast
  have "level c' = level c" by (simp add: cc)
  with lc have "level c' = Child" by simp
  with c' obtain fam where fam: "fam \<in> set (run_families cfg fp secs)" and cin: "c' \<in> set (snd fam)"
    by (rule run_base_child)
  from fam obtain sec k t where "sec \<in> set secs"
    and fe: "fam = (parent_of cfg fp (fst sec) k t, children_of cfg fp (fst sec) k t)"
    by (rule run_family_cases)
  let ?nm = "fst sec"
  let ?pid = "?nm @ ''_P'' @ str_nat (Suc k)"
  from cin fe have cm: "c' \<in> set (children_of cfg fp ?nm k t)" by simp
  have 1: "parent_id c = Some ?pid"
    using child_of_facts(3) [OF cm] by (simp add: cc)
  have 2: "chunk_id c = ?pid @ ''_C'' @ str_nat (chunk_index c)"
    using child_of_facts(4) [OF cm] by (simp add: cc)
  from fam have "fst fam \<in> set (run_base cfg fp secs)"
    by (simp add: set_run_base)
  then have "\<exists>m. (fst fam)\<lparr>global_id := Some m\<rparr> \<in> set (assign_global_ids 1 (run_base cfg fp secs))"
    by (rule assign_global_ids_member)
  then obtain m where pm: "(fst fam)\<lparr>global_id := Some m\<rparr> \<in> set (all_chunks_of cfg fp secs)"
    by (auto simp only: all_chunks_of_base)
  let ?p = "(fst fam)\<lparr>global_id := Some m\<rparr>"
  have 3: "level ?p = Parent" "chunk_id ?p = ?pid"
    "chunk_id ?p = section_name ?p @ ''_P'' @ str_nat (chunk_index ?p)"
    by (simp_all add: fe parent_of_def)
  from 1 2 3 pm show ?thesis by blast
qed

text \<open>
  C10. Every child chunk of a run carries the id of a parent chunk of the run, and the
  child's id is that parent id followed by \<open>_C\<close> and the child's own index; the parent's id
  is its section name followed by \<open>_P\<close> and the parent's index. The decimal index has no
  \<open>_\<close> and no \<open>C\<close>, so the parent id and the index are determined by the child id.
\<close>

theorem C10_child_id_extends_parent_id:
  "(\<forall>c \<in> set (all_chunks_of cfg fp secs). level c = Child \<longrightarrow>
      (\<exists>pid. parent_id c = Some pid \<and> chunk_id c = pid @ ''_C'' @ str_nat (chunk_index c)
           \<and> (\<exists>p \<in> set (all_chunks_of cfg fp secs). level p = Parent \<and> chunk_id p = pid
                 \<and> chunk_id p = section_name p @ ''_P'' @ str_nat (chunk_index p))))
   \<and> (\<forall>a b i j. a @ ''_C'' @ str_nat i = b @ ''_C'' @ str_nat j \<longrightarrow> a = b \<and> i = j)"
  using child_id_shape [of _ cfg fp secs] child_id_inj by blast

section \<open>Evaluating the splitter and the metrics\<close>

lemma split_two_short_paragraphs:
  "smart_split_content ''aaaa bbbb\<newline>\<newline>cccc dddd'' 10 3 = [''aaaa bbbb'', ''cccc dddd'']"
  by code_simp

lemma paragraph_step_overwrites_seed:
  assumes "cur \<noteq> []" "\<not> int (length (cur @ [CHR 0x0A, CHR 0x0A] @ para)) \<le> t"
    and "int (length para) \<le> t"
  shows "paragraph_step t ov (chunks, cur) para = (chunks @ [strip cur], para)"
  using assms by (simp add: paragraph_step_def Let_def)

text \<open>
  C1. When the paragraph loop emits a segment because the next paragraph would overflow,
  the accumulator is reseeded with the overlap tail, and the next segment should begin
  with it. At the text of two paragraphs of nine characters, with a budget of 10 and an
  overlap of 3, the seed \<open>bbb\<close> is computed and then overwritten by the paragraph: the
  second segment is the bare second paragraph. The same happens whenever the next
  paragraph fits the budget by itself (\<open>paragraph_step_overwrites_seed\<close>).
\<close>

theorem C1_overlap_seed_overwritten:
  "overlap_seed 3 ''aaaa bbbb'' = ''bbb''
   \<and> paragraph_step 10 3 ([], ''aaaa bbbb'') ''cccc dddd'' = ([''aaaa bbbb''], ''cccc dddd'')
   \<and> smart_split_content ''aaaa bbbb\<newline>\<newline>cccc dddd'' 10 3 = [''aaaa bbbb'', ''cccc dddd'']
   \<and> \<not> prefix ''bbb'' ''cccc dddd''"
  by code_simp

lemma metrics_of_no_chunk:
  "calculate_optimization_metrics cfg [] = Inl ZeroDivisionError
   \<and> get_optimization_recommendations cfg [] = Inl ZeroDivisionError
   \<and> create_hierarchical_chunks cfg fp [] = ([], Inl ZeroDivisionError)"
  by (simp add: calculate_optimization_metrics_def get_optimization_recommendations_def
      create_hierarchical_chunks_def all_chunks_of_def average_tokens_def chunks_per_query_def)

section \<open>Floats of integers\<close>

lemma floor_log2_bounds:
  "1 \<le> n \<Longrightarrow> 0 \<le> floor_log2 n \<and> 2 ^ nat (floor_log2 n) \<le> n \<and> n < 2 * 2 ^ nat (floor_log2 n)"
proof (induction n rule: floor_log2.induct)
  case (1 n)
  show ?case
  proof (cases "n < 2")
    case True
    with 1(2) have "n = 1" by simp
    then show ?thesis by (simp add: floor_log2.simps)
  next
    case False
    then have h: "1 \<le> n div 2" by simp
    from 1(1) [OF False h] have ih: "0 \<le> floor_log2 (n div 2)"
      "2 ^ nat (floor_log2 (n div 2)) \<le> n div 2" "n div 2 < 2 * 2 ^ nat (floor_log2 (n div 2))"
      by simp_all
    from False have e: "floor_log2 n = 1 + floor_log2 (n div 2)" by (subst floor_log2.simps) simp
    from ih(1) have p: "(2::int) ^ nat (1 + floor_log2 (n div 2)) = 2 * 2 ^ nat (floor_log2 (n div 2))"
      by (simp add: nat_add_distrib)
    from ih(2) have a: "2 * 2 ^ nat (floor_log2 (n div 2)) \<le> n" by linarith
    from ih(3) have b: "n < 2 * (2 * 2 ^ nat (floor_log2 (n div 2)))" by linarith
    from ih(1) a b show ?thesis unfolding e p by simp
  qed
qed

lemma round_half_even_of_int: "round_half_even (of_int k) = k"
  by (simp add: round_half_even_def)

text \<open>An integer below \<open>2\<^sup>5\<^sup>3\<close> is a double: rounding leaves it as it is.\<close>

lemma round_double_of_int:
  assumes "1 \<le> n" "n < 2 ^ 53"
  shows "round_double (of_int n) = Finite (of_int n)"
proof -
  let ?e = "floor_log2 n"
  from floor_log2_bounds [OF assms(1)] have b: "0 \<le> ?e" "2 ^ nat ?e \<le> n" "n < 2 * 2 ^ nat ?e"
    by simp_all
  from b(2) assms(2) have "(2::int) ^ nat ?e < 2 ^ 53" by linarith
  then have "nat ?e < 53" by (subst (asm) power_strict_increasing_iff) simp_all
  with b(1) have le: "?e \<le> 52" by linarith
  have fl1: "floor_log2 1 = 0" by (simp add: floor_log2.simps)
  from b(2) have "(of_int (2 ^ nat ?e) :: rat) \<le> of_int n" by (simp only: of_int_le_iff)
  then have "pow2 ?e \<le> of_int n" using b(1) by (simp add: pow2_def)
  then have be: "binary_exponent (of_int n) = ?e"
    by (simp add: binary_exponent_def fl1)
  from assms(1) have abs: "\<bar>of_int n :: rat\<bar> = of_int n" by simp
  from b(1) have mx: "max ?e (- 1022) = ?e" by simp
  from le have u: "pow2 (?e - 52) = 1 / 2 ^ nat (52 - ?e)"
    by (cases "?e = 52") (simp_all add: pow2_def)
  have q: "(of_int n :: rat) / (1 / 2 ^ nat (52 - ?e)) = of_int (n * 2 ^ nat (52 - ?e))" by simp
  have r: "(of_int (n * 2 ^ nat (52 - ?e)) :: rat) * (1 / 2 ^ nat (52 - ?e)) = of_int n" by simp
  from assms(2) have "n < 2 ^ 1024" by (rule less_trans) simp
  then have "(of_int n :: rat) < of_int (2 ^ 1024)" by (simp only: of_int_less_iff)
  then have big: "\<not> pow2 1024 \<le> (of_int n :: rat)" by (simp add: pow2_def)
  from assms(1) have nz: "(of_int n :: rat) \<noteq> 0" "(0::rat) < of_int n" by simp_all
  show ?thesis
    unfolding round_double_def abs be mx u q round_half_even_of_int r Let_def
    using big nz by simp
qed

lemma round_double_numeral:
  "numeral k < (2::int) ^ 53 \<Longrightarrow> round_double (numeral k) = Finite (numeral k)"
  using round_double_of_int [of "numeral k"] by simp

lemma round_double_one: "round_double 1 = Finite 1"
  using round_double_of_int [of 1] by simp

lemma round_double_zero: "round_double 0 = Finite 0"
  by (simp add: round_double_def)

lemma int_to_float_numeral:
  "numeral k < (2::int) ^ 53 \<Longrightarrow> int_to_float (numeral k) = Inr (numeral k)"
  by (simp add: int_to_float_def round_double_numeral)

lemma round_half_even_ge_floor: "\<lfloor>x\<rfloor> \<le> round_half_even x"
  by (simp add: round_half_even_def Let_def)

text \<open>An integer from \<open>2\<^sup>1\<^sup>0\<^sup>2\<^sup>4\<close> on is no double: its conversion raises.\<close>

lemma int_to_float_overflow:
  assumes "2 ^ 1024 \<le> n"
  shows "int_to_float n = Inl OverflowError"
proof -
  let ?e = "floor_log2 n"
  let ?m = "round_half_even (of_int n / pow2 (?e - 52))"
  have "(1::int) \<le> 2 ^ 1024" by simp
  from this assms have one: "1 \<le> n" by (rule order_trans)
  from floor_log2_bounds [OF one] have b: "0 \<le> ?e" "2 ^ nat ?e \<le> n" "n < 2 * 2 ^ nat ?e"
    by simp_all
  from assms b(3) have "(2::int) ^ 1024 < 2 ^ Suc (nat ?e)" by simp
  then have "1024 < Suc (nat ?e)" by (subst (asm) power_strict_increasing_iff) simp_all
  then have ge: "1024 \<le> ?e" by linarith
  have fl1: "floor_log2 1 = 0" by (simp add: floor_log2.simps)
  from b(2) have "(of_int (2 ^ nat ?e) :: rat) \<le> of_int n" by (simp only: of_int_le_iff)
  then have low: "(2::rat) ^ nat ?e \<le> of_int n" by simp
  then have "pow2 ?e \<le> of_int n" using b(1) by (simp add: pow2_def)
  then have be: "binary_exponent (of_int n) = ?e"
    by (simp add: binary_exponent_def fl1)
  from one have abs: "\<bar>of_int n :: rat\<bar> = of_int n" by simp
  from b(1) have mx: "max ?e (- 1022) = ?e" by simp
  from ge have u: "pow2 (?e - 52) = 2 ^ nat (?e - 52)" by (simp add: pow2_def)
  from ge have split: "nat ?e = 52 + nat (?e - 52)" by linarith
  have "(2::rat) ^ nat ?e = 2 ^ 52 * 2 ^ nat (?e - 52)"
    by (subst split) (simp only: power_add)
  with low have "(2::rat) ^ 52 * 2 ^ nat (?e - 52) \<le> of_int n" by simp
  then have "(2::rat) ^ 52 \<le> of_int n / 2 ^ nat (?e - 52)" by (simp add: pos_le_divide_eq)
  then have "(of_int (2 ^ 52) :: rat) \<le> of_int n / pow2 (?e - 52)" by (simp add: u)
  then have "(2::int) ^ 52 \<le> \<lfloor>(of_int n :: rat) / pow2 (?e - 52)\<rfloor>" by (simp only: le_floor_iff)
  also have "\<dots> \<le> ?m" by (rule round_half_even_ge_floor)
  finally have "(of_int (2 ^ 52) :: rat) \<le> of_int ?m" by (simp only: of_int_le_iff)
  then have "(of_int (2 ^ 52) :: rat) * 2 ^ nat (?e - 52) \<le> of_int ?m * 2 ^ nat (?e - 52)"
    by (rule mult_right_mono) simp
  then have m: "(2::rat) ^ nat ?e \<le> of_int ?m * pow2 (?e - 52)"
    by (subst split) (simp add: power_add u)
  from ge have "(1024::nat) \<le> nat ?e" by linarith
  then have "(2::rat) ^ 1024 \<le> 2 ^ nat ?e" by (rule power_increasing) simp
  from this m have "(2::rat) ^ 1024 \<le> of_int ?m * pow2 (?e - 52)" by (rule order_trans)
  then have big: "pow2 1024 \<le> of_int ?m * pow2 (?e - 52)" by (simp add: pow2_def)
  from one have nz: "(of_int n :: rat) \<noteq> 0" "(0::rat) < of_int n" by simp_all
  have "round_double (of_int n) = PosInf"
    unfolding round_double_def abs be mx Let_def using big nz by simp
  then show ?thesis by (simp add: int_to_float_def)
qed

text \<open>
  With an available context from \<open>2\<^sup>1\<^sup>0\<^sup>2\<^sup>4\<close> on, the floor division by a float raises
  \<^verbatim>\<open>OverflowError\<close>, whatever the average is.
\<close>

lemma chunks_per_query_overflow:
  "2 ^ 1024 \<le> available \<Longrightarrow> chunks_per_query available (Some avg) = Inl OverflowError"
  by (simp add: chunks_per_query_def Let_def int_to_float_overflow)

lemma metrics_overflow:
  assumes "2 ^ 1024 \<le> available_context cfg"
    and "average_tokens (map estimated_tokens (filter (\<lambda>c. level c = Child) cs)) = Inr (Some avg)"
  shows "calculate_optimization_metrics cfg cs = Inl OverflowError"
    and "get_optimization_recommendations cfg cs = Inl OverflowError"
  by (simp_all add: calculate_optimization_metrics_def get_optimization_recommendations_def
      Let_def assms(2) chunks_per_query_overflow [OF assms(1)])

text \<open>
  The metrics of a chunk list with one parent and one child, for an available context
  and a context window that are doubles: a child of no token makes the floor division
  raise, a child of one token lets the metrics return.
\<close>

lemma average_of_no_token: "average_tokens [0] = Inr (Some 0)"
  by (simp add: average_tokens_def int_true_divide_def round_double_zero)

lemma average_of_one_token: "average_tokens [Suc 0] = Inr (Some 1)"
  by (simp add: average_tokens_def int_true_divide_def round_double_one)

lemma chunks_per_query_no_token:
  "numeral k < (2::int) ^ 53 \<Longrightarrow> chunks_per_query (numeral k) (Some 0) = Inl ZeroDivisionError"
  by (simp add: chunks_per_query_def float_mul_def round_double_zero int_to_float_numeral)

lemma chunks_per_query_one_token:
  "numeral k < (2::int) ^ 53 \<Longrightarrow>
     chunks_per_query (numeral k) (Some 1) = Inr (float_floor_div (numeral k) (Finite 4))"
  by (simp add: chunks_per_query_def float_mul_def round_double_numeral int_to_float_numeral)

lemma tokens_of_three_characters:
  "map (\<lambda>c. (chunk_id c, level c, estimated_tokens c))
     (all_chunks_of default_config fp [(''doc'', ''a b'')])
     = [(''doc_P1'', Parent, 0), (''doc_P1_C1'', Child, 0)]
   \<and> map estimated_tokens (filter (\<lambda>c. level c = Child)
       (all_chunks_of default_config fp [(''doc'', ''a b'')])) = [0]"
  by code_simp

lemma run_of_three_characters:
  "map (\<lambda>c. (chunk_id c, level c, estimated_tokens c))
     (fst (create_hierarchical_chunks default_config fp [(''doc'', ''a b'')]))
     = [(''doc_P1'', Parent, 0), (''doc_P1_C1'', Child, 0)]
   \<and> snd (create_hierarchical_chunks default_config fp [(''doc'', ''a b'')]) = Inl ZeroDivisionError
   \<and> get_optimization_recommendations default_config
         (fst (create_hierarchical_chunks default_config fp [(''doc'', ''a b'')]))
       = Inl ZeroDivisionError"
proof -
  have a: "available_context default_config = 2867" by (simp add: default_config_def)
  have c: "chunks_per_query (available_context default_config) (Some 0) = Inl ZeroDivisionError"
    unfolding a by (rule chunks_per_query_no_token) simp
  show ?thesis
    by (simp add: create_hierarchical_chunks_def calculate_optimization_metrics_def
        get_optimization_recommendations_def Let_def tokens_of_three_characters
        average_of_no_token c)
qed

text \<open>
  C3. The metrics should not divide by zero when there is no child chunk or when the
  average child size is zero. Over the empty chunk list both metric functions raise
  \<^verbatim>\<open>ZeroDivisionError\<close>: the average is set to zero and the available context is then
  divided by four times that average; a run over no section fails in the same way. With
  the default configuration, a section of three characters gives one parent and one child
  of zero estimated tokens, and the run and the recommendations fail as well.
\<close>

theorem C3_metrics_divide_by_zero:
  "calculate_optimization_metrics cfg [] = Inl ZeroDivisionError
   \<and> get_optimization_recommendations cfg [] = Inl ZeroDivisionError
   \<and> create_hierarchical_chunks cfg fp [] = ([], Inl ZeroDivisionError)
   \<and> map (\<lambda>c. (chunk_id c, level c, estimated_tokens c))
       (fst (create_hierarchical_chunks default_config fp [(''doc'', ''a b'')]))
       = [(''doc_P1'', Parent, 0), (''doc_P1_C1'', Child, 0)]
   \<and> snd (create_hierarchical_chunks default_config fp [(''doc'', ''a b'')]) = Inl ZeroDivisionError
   \<and> get_optimization_recommendations default_config
         (fst (create_hierarchical_chunks default_config fp [(''doc'', ''a b'')]))
       = Inl ZeroDivisionError"
  using metrics_of_no_chunk [of cfg fp] run_of_three_characters [of fp] by blast

text \<open>
  C4. Every chunk's fingerprint should be taken from the chunk's own content. A section
  of two paragraphs that fits one parent and splits into two children gives both
  children the fingerprint of the whole parent content.
\<close>

theorem C4_child_hash_of_parent_content:
  "map (\<lambda>c. (content c, content_hash c))
     (filter (\<lambda>c. level c = Child)
        (all_chunks_of (default_config\<lparr>parent_chunk_size := 30, child_chunk_size := 10, overlap_size := 3\<rparr>)
           fp [(''s'', ''aaaa bbbb\<newline>\<newline>cccc dddd'')]))
   = [(''aaaa bbbb'', fp ''aaaa bbbb\<newline>\<newline>cccc dddd''),
      (''cccc dddd'', fp ''aaaa bbbb\<newline>\<newline>cccc dddd'')]"
  by (simp add: default_config_def all_chunks_of_def create_parent_chunks_def
      create_child_chunks_def split_two_short_paragraphs enumerate_eq_zip upt_rec
      str_nat.simps digit_char_def Let_def)





lemma sample_run:
  "map (\<lambda>c. (chunk_id c, level c, section_name c, global_id c))
     (all_chunks_of small_config (\<lambda>s. s) two_sections)
   = [(''s_P1'', Parent, ''s'', Some 1), (''s_P1_C1'', Child, ''s'', Some 2),
      (''s_P1_C2'', Child, ''s'', Some 3), (''t_P1'', Parent, ''t'', Some 4),
      (''t_P1_C1'', Child, ''t'', Some 5)]"
  by code_simp

lemma sample_run_length: "length (all_chunks_of small_config (\<lambda>s. s) two_sections) = 5"
  by code_simp

lemma sample_run_members:
  "all_chunks_of small_config (\<lambda>s. s) two_sections ! 0 \<in> set (all_chunks_of small_config (\<lambda>s. s) two_sections)"
  "all_chunks_of small_config (\<lambda>s. s) two_sections ! 1 \<in> set (all_chunks_of small_config (\<lambda>s. s) two_sections)"
  by (rule nth_mem, simp add: sample_run_length)+

lemma sample_run_fields:
  "level (all_chunks_of small_config (\<lambda>s. s) two_sections ! 0) = Parent
   \<and> level (all_chunks_of small_config (\<lambda>s. s) two_sections ! 1) = Child
   \<and> section_name (all_chunks_of small_config (\<lambda>s. s) two_sections ! 0)
       = section_name (all_chunks_of small_config (\<lambda>s. s) two_sections ! 1)
   \<and> 0 < estimated_tokens (all_chunks_of small_config (\<lambda>s. s) two_sections ! 1)"
  by code_simp

theorem C6_global_ids_contiguous_witness:
  "distinct (map fst two_sections)
   \<and> map global_id (all_chunks_of small_config (\<lambda>s. s) two_sections)
       = map Some [1 ..< 1 + length (all_chunks_of small_config (\<lambda>s. s) two_sections)]
   \<and> (\<exists>m n. global_id (all_chunks_of small_config (\<lambda>s. s) two_sections ! 0) = Some m
           \<and> global_id (all_chunks_of small_config (\<lambda>s. s) two_sections ! 1) = Some n \<and> m < n)"
proof -
  have d: "distinct (map fst two_sections)" by (simp add: two_sections_def)
  from C6_global_ids_contiguous [of small_config "\<lambda>s. s" two_sections] d
    sample_run_members sample_run_fields
  show ?thesis by blast
qed

theorem C7_parent_child_linkage_witness:
  "distinct (map fst two_sections)
   \<and> (\<exists>p. filter (\<lambda>p. level p = Parent
                  \<and> Some (chunk_id p) = parent_id (all_chunks_of small_config (\<lambda>s. s) two_sections ! 1))
             (all_chunks_of small_config (\<lambda>s. s) two_sections) = [p]
          \<and> (\<exists>ids. child_chunk_ids p = Some ids
                \<and> count_list ids (chunk_id (all_chunks_of small_config (\<lambda>s. s) two_sections ! 1)) = 1))
   \<and> child_chunk_ids (all_chunks_of small_config (\<lambda>s. s) two_sections ! 0)
       = Some (map chunk_id (filter (\<lambda>c. level c = Child
                \<and> parent_id c = Some (chunk_id (all_chunks_of small_config (\<lambda>s. s) two_sections ! 0)))
             (all_chunks_of small_config (\<lambda>s. s) two_sections)))
   \<and> child_count (all_chunks_of small_config (\<lambda>s. s) two_sections ! 0)
       = Some (length (filter (\<lambda>c. level c = Child
                \<and> parent_id c = Some (chunk_id (all_chunks_of small_config (\<lambda>s. s) two_sections ! 0)))
             (all_chunks_of small_config (\<lambda>s. s) two_sections)))"
proof -
  have d: "distinct (map fst two_sections)" by (simp add: two_sections_def)
  from C7_parent_child_linkage [OF d, of small_config "\<lambda>s. s"] d
    sample_run_members sample_run_fields
  show ?thesis by blast
qed

theorem C10_child_id_extends_parent_id_witness:
  "(\<exists>pid. parent_id (all_chunks_of small_config (\<lambda>s. s) two_sections ! 1) = Some pid
      \<and> chunk_id (all_chunks_of small_config (\<lambda>s. s) two_sections ! 1)
          = pid @ ''_C'' @ str_nat (chunk_index (all_chunks_of small_config (\<lambda>s. s) two_sections ! 1))
      \<and> (\<exists>p \<in> set (all_chunks_of small_config (\<lambda>s. s) two_sections). level p = Parent \<and> chunk_id p = pid
            \<and> chunk_id p = section_name p @ ''_P'' @ str_nat (chunk_index p)))
   \<and> (''s_P1'' @ ''_C'' @ str_nat 2 = ''s_P1'' @ ''_C'' @ str_nat 2 \<and> ''s_P1'' = ''s_P1'')"
proof -
  from C10_child_id_extends_parent_id [of small_config "\<lambda>s. s" two_sections]
    sample_run_members sample_run_fields
  show ?thesis by blast
qed

section \<open>White space, paragraphs and sentences\<close>

lemma is_space_newline [simp]: "is_space (CHR 0x0A)"
  by (simp add: is_space_def)

lemma is_space_blank [simp]: "is_space (CHR '' '')"
  by (simp add: is_space_def)

lemma non_space_append [simp]: "non_space (a @ b) = non_space a @ non_space b"
  by (simp add: non_space_def)

lemma non_space_Nil [simp]: "non_space [] = []"
  by (simp add: non_space_def)

lemma non_space_blank [simp]: "non_space '' '' = []"
  by (simp add: non_space_def)

lemma filter_dropWhile_not: "filter (\<lambda>c. \<not> P c) (dropWhile P xs) = filter (\<lambda>c. \<not> P c) xs"
  by (induction xs) auto

lemma non_space_strip [simp]: "non_space (strip s) = non_space s"
proof -
  have "non_space (strip s) = rev (filter (\<lambda>c. \<not> is_space c) (dropWhile is_space (rev (dropWhile is_space s))))"
    by (simp add: non_space_def strip_def rev_filter)
  also have "\<dots> = rev (filter (\<lambda>c. \<not> is_space c) (rev (dropWhile is_space s)))"
    by (simp only: filter_dropWhile_not)
  also have "\<dots> = filter (\<lambda>c. \<not> is_space c) (dropWhile is_space s)"
    by (simp add: rev_filter)
  also have "\<dots> = non_space s"
    by (simp only: filter_dropWhile_not non_space_def)
  finally show ?thesis .
qed

lemma length_strip_le: "length (strip s) \<le> length s"
proof -
  have "length (dropWhile is_space (rev (dropWhile is_space s))) \<le> length (rev (dropWhile is_space s))"
    by (rule length_dropWhile_le)
  also have "\<dots> = length (dropWhile is_space s)" by simp
  also have "\<dots> \<le> length s" by (rule length_dropWhile_le)
  finally show ?thesis by (simp add: strip_def)
qed

lemma strip_Nil [simp]: "strip [] = []"
  by (simp add: strip_def)

lemma dropWhile_Nil_filter:
  "dropWhile P xs = [] \<longleftrightarrow> filter (\<lambda>c. \<not> P c) xs = []"
  by (simp add: filter_empty_conv)

lemma strip_not_Nil_non_space: "strip s \<noteq> [] \<longleftrightarrow> non_space s \<noteq> []"
proof -
  have "strip s = [] \<longleftrightarrow> dropWhile is_space (rev (dropWhile is_space s)) = []"
    by (simp add: strip_def)
  also have "\<dots> \<longleftrightarrow> filter (\<lambda>c. \<not> is_space c) (rev (dropWhile is_space s)) = []"
    by (rule dropWhile_Nil_filter)
  also have "\<dots> \<longleftrightarrow> rev (filter (\<lambda>c. \<not> is_space c) (dropWhile is_space s)) = []"
    by (simp only: rev_filter)
  also have "\<dots> \<longleftrightarrow> filter (\<lambda>c. \<not> is_space c) s = []"
    by (simp only: rev_is_Nil_conv filter_dropWhile_not)
  finally show ?thesis by (simp add: non_space_def)
qed

lemma split_paragraphs_not_Nil [simp]: "split_paragraphs s \<noteq> []"
  by (cases s rule: split_paragraphs.cases) (simp_all split: list.split)

lemma non_space_split_paragraphs:
  "concat (map non_space (split_paragraphs s)) = non_space s"
proof (induction s rule: split_paragraphs.induct)
  case 1
  then show ?case by simp
next
  case (2 c)
  then show ?case by simp
next
  case (3 c d cs)
  show ?case
  proof (cases "c = CHR 0x0A \<and> d = CHR 0x0A")
    case True
    with "3.IH"(1) show ?thesis by (simp add: non_space_def)
  next
    case False
    obtain p ps where sp: "split_paragraphs (d # cs) = p # ps"
      using split_paragraphs_not_Nil [of "d # cs"] by (cases "split_paragraphs (d # cs)") auto
    from "3.IH"(2) [OF False] sp have "non_space p @ concat (map non_space ps) = non_space (d # cs)"
      by simp
    then have "non_space (c # p) @ concat (map non_space ps) = non_space (c # d # cs)"
      by (simp add: non_space_def)
    moreover from False sp have "split_paragraphs (c # d # cs) = (c # p) # ps" by auto
    ultimately show ?thesis by simp
  qed
qed

lemma split_sentences_not_Nil [simp]: "split_sentences s \<noteq> []"
  by (cases s) (simp_all split: list.split)

lemma non_space_split_sentences:
  "concat (map non_space (split_sentences s)) = non_space s"
proof (induction s rule: split_sentences.induct)
  case 1
  then show ?case by simp
next
  case (2 c cs)
  show ?case
  proof (cases "is_sentence_end c \<and> cs \<noteq> [] \<and> is_space (hd cs)")
    case True
    have "non_space (dropWhile is_space cs) = non_space cs"
      by (simp only: non_space_def filter_dropWhile_not)
    with "2.IH"(1) [OF True] True show ?thesis by (simp add: non_space_def)
  next
    case False
    obtain p ps where sp: "split_sentences cs = p # ps"
      using split_sentences_not_Nil [of cs] by (cases "split_sentences cs") auto
    from "2.IH"(2) [OF False] sp have "non_space p @ concat (map non_space ps) = non_space cs"
      by simp
    then have "non_space (c # p) @ concat (map non_space ps) = non_space (c # cs)"
      by (simp add: non_space_def)
    moreover from False sp have "split_sentences (c # cs) = (c # p) # ps" by auto
    ultimately show ?thesis by simp
  qed
qed

lemma split_sentences_single: "split_sentences s = [p] \<Longrightarrow> p = s"
proof (induction s arbitrary: p rule: split_sentences.induct)
  case 1
  then show ?case by simp
next
  case (2 c cs)
  show ?case
  proof (cases "is_sentence_end c \<and> cs \<noteq> [] \<and> is_space (hd cs)")
    case True
    with "2.prems" show ?thesis by simp
  next
    case False
    obtain q qs where sp: "split_sentences cs = q # qs"
      using split_sentences_not_Nil [of cs] by (cases "split_sentences cs") auto
    with False have "split_sentences (c # cs) = (c # q) # qs" by auto
    with "2.prems" have "qs = []" "p = c # q" by auto
    with "2.IH"(2) [OF False, of q] sp show ?thesis by simp
  qed
qed

lemma suffix_last_split_sentences: "suffix (last (split_sentences s)) s"
proof (induction s rule: split_sentences.induct)
  case 1
  then show ?case by simp
next
  case (2 c cs)
  show ?case
  proof (cases "is_sentence_end c \<and> cs \<noteq> [] \<and> is_space (hd cs)")
    case True
    have "suffix (dropWhile is_space cs) cs" by (rule suffix_dropWhile)
    with "2.IH"(1) [OF True] have "suffix (last (split_sentences (dropWhile is_space cs))) cs"
      by (rule suffix_order.trans)
    then have "suffix (last (split_sentences (dropWhile is_space cs))) (c # cs)"
      by (rule suffix_ConsI)
    moreover from True have "split_sentences (c # cs) = [c] # split_sentences (dropWhile is_space cs)"
      by simp
    ultimately show ?thesis by simp
  next
    case False
    obtain p ps where sp: "split_sentences cs = p # ps"
      using split_sentences_not_Nil [of cs] by (cases "split_sentences cs") auto
    show ?thesis
    proof (cases ps)
      case Nil
      moreover from False sp have "split_sentences (c # cs) = (c # p) # ps" by auto
      moreover from non_space_split_sentences [of cs] have True by simp
      moreover have "length p = length cs" using split_sentences_single [of cs p] sp Nil by simp
      ultimately show ?thesis using "2.IH"(2) [OF False] sp
        by (auto simp: suffix_def)
    next
      case (Cons q qs)
      with "2.IH"(2) [OF False] sp have "suffix (last (q # qs)) cs" by simp
      then have "suffix (last (q # qs)) (c # cs)" by (rule suffix_ConsI)
      moreover from False sp have "split_sentences (c # cs) = (c # p) # ps" by auto
      ultimately show ?thesis using Cons by simp
    qed
  qed
qed

lemma suffix_last_chars: "suffix (last_chars k s) s"
  unfolding last_chars_def by (rule suffix_drop)

lemma length_last_chars: "length (last_chars k s) \<le> k"
  by (simp add: last_chars_def)

lemma suffix_overlap_seed: "suffix (overlap_seed ov cur) cur"
proof (cases "ov > 0 \<and> int (length cur) > ov")
  case True
  have "suffix (last (split_sentences (last_chars (nat ov) cur))) (last_chars (nat ov) cur)"
    by (rule suffix_last_split_sentences)
  then have "suffix (last (split_sentences (last_chars (nat ov) cur))) cur"
    using suffix_last_chars [of "nat ov" cur] by (rule suffix_order.trans)
  with True show ?thesis by (simp add: overlap_seed_def Let_def)
next
  case False
  then show ?thesis by (auto simp: overlap_seed_def)
qed

lemma length_overlap_seed: "int (length (overlap_seed ov cur)) \<le> max 0 ov"
proof (cases "ov > 0 \<and> int (length cur) > ov")
  case True
  have "suffix (last (split_sentences (last_chars (nat ov) cur))) (last_chars (nat ov) cur)"
    by (rule suffix_last_split_sentences)
  then have "length (last (split_sentences (last_chars (nat ov) cur))) \<le> length (last_chars (nat ov) cur)"
    by (rule suffix_length_le)
  also have "\<dots> \<le> nat ov" by (rule length_last_chars)
  finally have "int (length (last (split_sentences (last_chars (nat ov) cur)))) \<le> ov"
    using True by linarith
  with True show ?thesis by (simp add: overlap_seed_def Let_def)
next
  case False
  then show ?thesis by (auto simp: overlap_seed_def)
qed

lemma suffix_filter: "suffix a b \<Longrightarrow> suffix (filter P a) (filter P b)"
  by (auto simp: suffix_def)

lemma suffix_non_space: "suffix a b \<Longrightarrow> suffix (non_space a) (non_space b)"
  unfolding non_space_def by (rule suffix_filter)

section \<open>The size of the segments\<close>

lemma emit_ok:
  assumes "int (length x) \<le> b \<or> oversized_acc units overlap x"
  shows "int (length (strip x)) \<le> b \<or> from_oversized_unit units overlap (strip x)"
proof -
  from assms show ?thesis
  proof
    assume "int (length x) \<le> b"
    moreover have "length (strip x) \<le> length x" by (rule length_strip_le)
    ultimately show ?thesis by linarith
  next
    assume "oversized_acc units overlap x"
    then show ?thesis unfolding from_oversized_unit_def by blast
  qed
qed

lemma size_inv_emit:
  assumes inv: "size_inv units t ov (chunks, acc)"
    and acc: "acc \<noteq> []"
    and new: "new = [] \<or> (int (length new) \<le> t + max 0 ov + 1 \<or> oversized_acc units ov new)"
  shows "size_inv units t ov (chunks @ [strip acc], new)"
proof -
  from inv acc have t: "0 \<le> t"
    and a: "int (length acc) \<le> t + max 0 ov + 1 \<or> oversized_acc units ov acc"
    by (simp_all add: size_inv_def)
  from a have "int (length (strip acc)) \<le> t + max 0 ov + 1 \<or> from_oversized_unit units ov (strip acc)"
    by (rule emit_ok)
  with inv t new show ?thesis by (auto simp: size_inv_def)
qed

lemma size_inv_replace:
  assumes inv: "size_inv units t ov (chunks, acc)"
    and new: "int (length new) \<le> t"
  shows "size_inv units t ov (chunks, new)"
proof -
  from new have "0 \<le> t" by linarith
  moreover from new have "int (length new) \<le> t + max 0 ov + 1" by linarith
  ultimately show ?thesis using inv by (simp add: size_inv_def)
qed

lemma sentence_step_size_inv:
  assumes inv: "size_inv units t ov st"
    and unit: "t < int (length s) \<Longrightarrow> s \<in> set units"
  shows "size_inv units t ov (sentence_step t ov st s)"
proof -
  obtain chunks temp where st: "st = (chunks, temp)" by (cases st)
  note inv' = inv [unfolded st]
  show ?thesis
  proof (cases "int (length (temp @ '' '' @ s)) \<le> t")
    case fits: True
    show ?thesis
    proof (cases "temp = []")
      case True
      from fits have "int (length s) \<le> t" by simp
      with inv' have "size_inv units t ov (chunks, s)" by (rule size_inv_replace)
      with fits True show ?thesis by (simp add: st sentence_step_def)
    next
      case False
      from inv' fits have "size_inv units t ov (chunks, temp @ '' '' @ s)" by (rule size_inv_replace)
      with fits False show ?thesis by (simp add: st sentence_step_def)
    qed
  next
    case over: False
    show ?thesis
    proof (cases "temp = []")
      case True
      have "int (length (strip s)) \<le> t + max 0 ov + 1 \<or> from_oversized_unit units ov (strip s)"
      proof (cases "t < int (length s)")
        case True
        then have "s \<in> set units" by (rule unit)
        then have "oversized_acc units ov s" unfolding oversized_acc_def by blast
        then show ?thesis unfolding from_oversized_unit_def by blast
      next
        case False
        moreover have "length (strip s) \<le> length s" by (rule length_strip_le)
        ultimately show ?thesis by linarith
      qed
      with inv' have "size_inv units t ov (chunks @ [strip s], [])"
        by (simp add: size_inv_def)
      with over True show ?thesis by (simp add: st sentence_step_def)
    next
      case False
      let ?new = "if ov > 0 then (if int (length temp) > ov then last_chars (nat ov) temp else temp) @ '' '' @ s
                  else s"
      have new: "int (length ?new) \<le> t + max 0 ov + 1 \<or> oversized_acc units ov ?new"
      proof (cases "ov > 0")
        case pos: True
        let ?pre = "if int (length temp) > ov then last_chars (nat ov) temp else temp"
        have pre: "int (length ?pre) \<le> max 0 ov"
          using length_last_chars [of "nat ov" temp] pos by auto
        show ?thesis
        proof (cases "t < int (length s)")
          case True
          then have "s \<in> set units" by (rule unit)
          with pre have "oversized_acc units ov (?pre @ '' '' @ s)"
            unfolding oversized_acc_def by blast
          with pos show ?thesis by simp
        next
          case False
          with pre have "int (length (?pre @ '' '' @ s)) \<le> t + max 0 ov + 1" by simp
          with pos show ?thesis by simp
        qed
      next
        case npos: False
        show ?thesis
        proof (cases "t < int (length s)")
          case True
          then have "s \<in> set units" by (rule unit)
          then have "oversized_acc units ov s" unfolding oversized_acc_def by blast
          with npos show ?thesis by simp
        next
          case False
          with npos show ?thesis by simp
        qed
      qed
      from inv' False new have "size_inv units t ov (chunks @ [strip temp], ?new)"
        by (intro size_inv_emit) auto
      with over False show ?thesis by (simp add: st sentence_step_def)
    qed
  qed
qed

lemma foldl_sentence_step_size_inv:
  assumes "size_inv units t ov st"
    and "\<And>s. s \<in> set ss \<Longrightarrow> t < int (length s) \<Longrightarrow> s \<in> set units"
  shows "size_inv units t ov (foldl (sentence_step t ov) st ss)"
  using assms
proof (induction ss arbitrary: st)
  case Nil
  then show ?case by simp
next
  case (Cons s ss)
  have "size_inv units t ov (sentence_step t ov st s)"
    by (rule sentence_step_size_inv) (use Cons.prems in auto)
  then have "size_inv units t ov (foldl (sentence_step t ov) (sentence_step t ov st s) ss)"
    by (rule Cons.IH) (use Cons.prems in auto)
  then show ?case by simp
qed

lemma paragraph_step_size_inv:
  assumes inv: "size_inv units t ov st"
    and unit: "\<And>s. t < int (length para) \<Longrightarrow> s \<in> set (split_sentences para)
                 \<Longrightarrow> t < int (length s) \<Longrightarrow> s \<in> set units"
  shows "size_inv units t ov (paragraph_step t ov st para)"
proof -
  obtain chunks cur where st: "st = (chunks, cur)" by (cases st)
  note inv' = inv [unfolded st]
  let ?test = "if cur \<noteq> [] then cur @ [CHR 0x0A, CHR 0x0A] @ para else para"
  show ?thesis
  proof (cases "int (length ?test) \<le> t")
    case True
    with inv' have "size_inv units t ov (chunks, ?test)" by (rule size_inv_replace)
    with True show ?thesis by (simp add: st paragraph_step_def Let_def)
  next
    case over: False
    let ?st1 = "if cur \<noteq> [] then (chunks @ [strip cur], overlap_seed ov cur) else (chunks, cur)"
    have st1: "size_inv units t ov ?st1"
    proof (cases "cur = []")
      case True
      with inv' show ?thesis by simp
    next
      case False
      with inv' have t: "0 \<le> t" by (simp add: size_inv_def)
      have "int (length (overlap_seed ov cur)) \<le> max 0 ov" by (rule length_overlap_seed)
      with t have "int (length (overlap_seed ov cur)) \<le> t + max 0 ov + 1" by linarith
      with inv' False have "size_inv units t ov (chunks @ [strip cur], overlap_seed ov cur)"
        by (intro size_inv_emit) auto
      with False show ?thesis by simp
    qed
    show ?thesis
    proof (cases "t < int (length para)")
      case True
      have "size_inv units t ov (foldl (sentence_step t ov) ?st1 (split_sentences para))"
        using st1 by (rule foldl_sentence_step_size_inv) (rule unit [OF True])
      with over True show ?thesis by (simp add: st paragraph_step_def Let_def)
    next
      case False
      then have le: "int (length para) \<le> t" by simp
      have "size_inv units t ov (fst ?st1, snd ?st1)" using st1 by simp
      then have "size_inv units t ov (fst ?st1, para)" using le by (rule size_inv_replace)
      with over False show ?thesis by (simp add: st paragraph_step_def Let_def)
    qed
  qed
qed

lemma foldl_paragraph_step_size_inv:
  assumes "size_inv units t ov st"
    and "\<And>para s. para \<in> set ps \<Longrightarrow> t < int (length para) \<Longrightarrow> s \<in> set (split_sentences para)
                 \<Longrightarrow> t < int (length s) \<Longrightarrow> s \<in> set units"
  shows "size_inv units t ov (foldl (paragraph_step t ov) st ps)"
  using assms
proof (induction ps arbitrary: st)
  case Nil
  then show ?case by simp
next
  case (Cons p ps)
  have "size_inv units t ov (paragraph_step t ov st p)"
    by (rule paragraph_step_size_inv) (use Cons.prems in auto)
  then have "size_inv units t ov (foldl (paragraph_step t ov) (paragraph_step t ov st p) ps)"
    by (rule Cons.IH) (use Cons.prems in auto)
  then show ?case by simp
qed

lemma smart_split_content_size:
  assumes "c \<in> set (smart_split_content doc t ov)"
  shows "(int (length c) \<le> t + max 0 ov + 1 \<or> from_oversized_unit (oversized_units doc t) ov c)
         \<and> strip c \<noteq> []"
proof -
  let ?units = "oversized_units doc t"
  obtain chunks cur where fin: "foldl (paragraph_step t ov) ([], []) (split_paragraphs doc) = (chunks, cur)"
    by (cases "foldl (paragraph_step t ov) ([], []) (split_paragraphs doc)")
  have "size_inv ?units t ov ([], [])" by (simp add: size_inv_def)
  then have "size_inv ?units t ov (foldl (paragraph_step t ov) ([], []) (split_paragraphs doc))"
    by (rule foldl_paragraph_step_size_inv) (auto simp: oversized_units_def)
  then have inv: "size_inv ?units t ov (chunks, cur)" by (simp only: fin)
  from assms fin have mem: "c \<in> set (if cur \<noteq> [] then chunks @ [strip cur] else chunks)"
    and ne: "strip c \<noteq> []"
    by (simp_all add: smart_split_content_def)
  have "int (length c) \<le> t + max 0 ov + 1 \<or> from_oversized_unit ?units ov c"
  proof (cases "c \<in> set chunks")
    case True
    with inv show ?thesis by (simp add: size_inv_def)
  next
    case False
    with mem have cur: "cur \<noteq> []" and c: "c = strip cur" by (auto split: if_splits)
    from inv cur have "int (length cur) \<le> t + max 0 ov + 1 \<or> oversized_acc ?units ov cur"
      by (simp add: size_inv_def)
    then show ?thesis unfolding c by (rule emit_ok)
  qed
  with ne show ?thesis by simp
qed

section \<open>The size of the chunks of a run\<close>

lemma parent_texts_size:
  assumes "t \<in> set (parent_texts cfg doc)"
  shows "int (length t) \<le> parent_chunk_size cfg + max 0 (overlap_size cfg) + 1
         \<or> from_oversized_unit (oversized_units doc (parent_chunk_size cfg)) (overlap_size cfg) t"
    and "strip doc \<noteq> [] \<Longrightarrow> strip t \<noteq> []"
proof -
  show "int (length t) \<le> parent_chunk_size cfg + max 0 (overlap_size cfg) + 1
         \<or> from_oversized_unit (oversized_units doc (parent_chunk_size cfg)) (overlap_size cfg) t"
  proof (cases "int (length doc) \<le> parent_chunk_size cfg")
    case True
    with assms have "t = doc" by (simp add: parent_texts_def)
    moreover from True have "int (length doc) \<le> parent_chunk_size cfg + max 0 (overlap_size cfg) + 1"
      by linarith
    ultimately show ?thesis by simp
  next
    case False
    with assms have "t \<in> set (smart_split_content doc (parent_chunk_size cfg) (overlap_size cfg))"
      by (simp add: parent_texts_def)
    from smart_split_content_size [OF this] show ?thesis by simp
  qed
  show "strip t \<noteq> []" if "strip doc \<noteq> []"
  proof (cases "int (length doc) \<le> parent_chunk_size cfg")
    case True
    with assms have "t = doc" by (simp add: parent_texts_def)
    with that show ?thesis by simp
  next
    case False
    with assms have "t \<in> set (smart_split_content doc (parent_chunk_size cfg) (overlap_size cfg))"
      by (simp add: parent_texts_def)
    from smart_split_content_size [OF this] show ?thesis by simp
  qed
qed

lemma child_texts_size:
  assumes "u \<in> set (child_texts cfg t)"
  shows "int (length u) \<le> child_chunk_size cfg + max 0 (overlap_size cfg) + 1
         \<or> from_oversized_unit (oversized_units t (child_chunk_size cfg)) (overlap_size cfg) u"
    and "strip t \<noteq> [] \<Longrightarrow> strip u \<noteq> []"
proof -
  show "int (length u) \<le> child_chunk_size cfg + max 0 (overlap_size cfg) + 1
         \<or> from_oversized_unit (oversized_units t (child_chunk_size cfg)) (overlap_size cfg) u"
  proof (cases "int (length t) \<le> child_chunk_size cfg")
    case True
    with assms have "u = t" by (simp add: child_texts_def)
    moreover from True have "int (length t) \<le> child_chunk_size cfg + max 0 (overlap_size cfg) + 1"
      by linarith
    ultimately show ?thesis by simp
  next
    case False
    with assms have "u \<in> set (smart_split_content t (child_chunk_size cfg) (overlap_size cfg))"
      by (simp add: child_texts_def)
    from smart_split_content_size [OF this] show ?thesis by simp
  qed
  show "strip u \<noteq> []" if "strip t \<noteq> []"
  proof (cases "int (length t) \<le> child_chunk_size cfg")
    case True
    with assms have "u = t" by (simp add: child_texts_def)
    with that show ?thesis by simp
  next
    case False
    with assms have "u \<in> set (smart_split_content t (child_chunk_size cfg) (overlap_size cfg))"
      by (simp add: child_texts_def)
    from smart_split_content_size [OF this] show ?thesis by simp
  qed
qed

lemma run_family_origin:
  assumes "fam \<in> set (run_families cfg fp secs)"
  obtains sec k t where "sec \<in> set secs" "t \<in> set (parent_texts cfg (snd sec))"
    "fam = (parent_of cfg fp (fst sec) k t, children_of cfg fp (fst sec) k t)"
proof -
  from assms obtain sec where sec: "sec \<in> set secs" "fam \<in> set (families cfg fp sec)"
    by (auto simp: run_families_def)
  from sec(2) obtain k t where f: "fam = (parent_of cfg fp (fst sec) k t, children_of cfg fp (fst sec) k t)"
    and k: "k < length (parent_texts cfg (snd sec))" and t: "t = parent_texts cfg (snd sec) ! k"
    by (rule family_cases)
  from k t have "t \<in> set (parent_texts cfg (snd sec))" by simp
  with sec(1) show thesis using f by (rule that)
qed

text \<open>Where a chunk of a run comes from: a parent text of a section, or a child text of one.\<close>

lemma chunk_origin:
  assumes c: "c \<in> set (all_chunks_of cfg fp secs)"
  shows "\<exists>sec \<in> set secs. \<exists>t \<in> set (parent_texts cfg (snd sec)).
           (level c = Parent \<and> section_name c = fst sec \<and> content c = t \<and> char_count c = length t)
         \<or> (level c = Child \<and> content c \<in> set (child_texts cfg t) \<and> char_count c = length (content c)
              \<and> (\<exists>p \<in> set (all_chunks_of cfg fp secs).
                    level p = Parent \<and> parent_id c = Some (chunk_id p) \<and> content p = t))"
proof -
  from c have "c \<in> set (assign_global_ids 1 (run_base cfg fp secs))"
    by (simp only: all_chunks_of_base)
  from set_assign_global_ids [OF this]
  obtain c' n where c': "c' \<in> set (run_base cfg fp secs)" and cc: "c = c'\<lparr>global_id := Some n\<rparr>"
    by blast
  from c' consider fam where "fam \<in> set (run_families cfg fp secs)" "c' = fst fam"
    | fam where "fam \<in> set (run_families cfg fp secs)" "c' \<in> set (snd fam)"
    by (auto simp: set_run_base)
  then show ?thesis
  proof cases
    case 1
    from 1(1) obtain sec k t where sec: "sec \<in> set secs" and t: "t \<in> set (parent_texts cfg (snd sec))"
      and fe: "fam = (parent_of cfg fp (fst sec) k t, children_of cfg fp (fst sec) k t)"
      by (rule run_family_origin)
    from 1(2) fe have "c = (parent_of cfg fp (fst sec) k t)\<lparr>global_id := Some n\<rparr>" by (simp add: cc)
    then have "level c = Parent \<and> section_name c = fst sec \<and> content c = t \<and> char_count c = length t"
      by (simp add: parent_of_def)
    with sec t show ?thesis by blast
  next
    case 2
    from 2(1) obtain sec k t where sec: "sec \<in> set secs" and t: "t \<in> set (parent_texts cfg (snd sec))"
      and fe: "fam = (parent_of cfg fp (fst sec) k t, children_of cfg fp (fst sec) k t)"
      by (rule run_family_origin)
    from 2(2) fe have cm: "c' \<in> set (children_of cfg fp (fst sec) k t)" by simp
    have a: "level c = Child" "content c \<in> set (child_texts cfg t)" "char_count c = length (content c)"
      "parent_id c = Some (fst sec @ ''_P'' @ str_nat (Suc k))"
      using child_of_facts [OF cm] by (simp_all add: cc)
    from 2(1) have "fst fam \<in> set (run_base cfg fp secs)" by (simp add: set_run_base)
    then have "\<exists>m. (fst fam)\<lparr>global_id := Some m\<rparr> \<in> set (assign_global_ids 1 (run_base cfg fp secs))"
      by (rule assign_global_ids_member)
    then obtain m where pm: "(fst fam)\<lparr>global_id := Some m\<rparr> \<in> set (all_chunks_of cfg fp secs)"
      by (auto simp only: all_chunks_of_base)
    let ?p = "(fst fam)\<lparr>global_id := Some m\<rparr>"
    have b: "level ?p = Parent" "chunk_id ?p = fst sec @ ''_P'' @ str_nat (Suc k)" "content ?p = t"
      by (simp_all add: fe parent_of_def)
    from b pm have "\<exists>p \<in> set (all_chunks_of cfg fp secs).
                    level p = Parent \<and> Some (fst sec @ ''_P'' @ str_nat (Suc k)) = Some (chunk_id p) \<and> content p = t"
      by (intro bexI [of _ ?p]) (simp_all only: simp_thms)
    with a have "level c = Child \<and> content c \<in> set (child_texts cfg t) \<and> char_count c = length (content c)
              \<and> (\<exists>p \<in> set (all_chunks_of cfg fp secs).
                    level p = Parent \<and> parent_id c = Some (chunk_id p) \<and> content p = t)"
      by simp
    with sec t show ?thesis by blast
  qed
qed

section \<open>Segments as overlap and rest\<close>

lemma overlaps_chain_append:
  "overlaps_chain k prev (ps @ qs) \<longleftrightarrow>
     overlaps_chain k prev ps \<and> overlaps_chain k (chain_end prev ps) qs"
  by (induction ps arbitrary: prev) auto

lemma chain_end_append: "chain_end prev (ps @ qs) = chain_end (chain_end prev ps) qs"
  by (induction ps arbitrary: prev) auto

lemma overlaps_chain_weaken: "overlaps_chain k [] qs \<Longrightarrow> overlaps_chain k prev qs"
  by (cases qs) auto

lemma overlaps_chain_filter:
  "overlaps_chain k prev ps \<Longrightarrow> overlaps_chain k prev (filter (\<lambda>(ov, rest). ov @ rest \<noteq> []) ps)"
proof (induction ps arbitrary: prev)
  case Nil
  then show ?case by simp
next
  case (Cons p ps)
  obtain ov rest where p: "p = (ov, rest)" by (cases p)
  from Cons.prems have s: "suffix ov prev" "length ov \<le> k" and c: "overlaps_chain k (ov @ rest) ps"
    by (simp_all add: p)
  from c have ih: "overlaps_chain k (ov @ rest) (filter (\<lambda>(ov, rest). ov @ rest \<noteq> []) ps)"
    by (rule Cons.IH)
  show ?case
  proof (cases "ov @ rest = []")
    case True
    with ih have "overlaps_chain k prev (filter (\<lambda>(ov, rest). ov @ rest \<noteq> []) ps)"
      by (simp add: overlaps_chain_weaken)
    with True show ?thesis by (simp add: p)
  next
    case False
    with s ih show ?thesis by (simp add: p)
  qed
qed

lemma concat_rest_filter:
  "concat (map snd (filter (\<lambda>(ov, rest). ov @ rest \<noteq> []) ps)) = concat (map snd ps)"
  by (induction ps) auto

lemma rebuild_emit:
  assumes inv: "rebuild_inv k seen (chunks, acc)"
    and ov: "suffix ov (non_space acc)" "length ov \<le> k"
    and new: "non_space new = ov @ x"
  shows "rebuild_inv k (seen @ x) (chunks @ [strip acc], new)"
proof -
  from inv obtain ps oc rc where m: "map (\<lambda>(ov, rest). ov @ rest) ps = map non_space chunks"
    and a: "non_space acc = oc @ rc" and ch: "overlaps_chain k [] ps"
    and su: "suffix oc (chain_end [] ps)" and le: "length oc \<le> k"
    and d: "concat (map snd ps) @ rc = seen"
    unfolding rebuild_inv_def by auto
  let ?ps = "ps @ [(oc, rc)]"
  have 1: "map (\<lambda>(ov, rest). ov @ rest) ?ps = map non_space (chunks @ [strip acc])"
    using m a by simp
  have 2: "overlaps_chain k [] ?ps"
    using ch su le by (simp add: overlaps_chain_append)
  have 3: "chain_end [] ?ps = non_space acc"
    using a by (simp add: chain_end_append)
  have 4: "concat (map snd ?ps) @ x = seen @ x"
    using d by simp
  from 1 new 2 3 ov 4 show ?thesis
    unfolding rebuild_inv_def fst_conv snd_conv by metis
qed

lemma rebuild_extend:
  assumes inv: "rebuild_inv k seen (chunks, acc)"
    and new: "non_space new = non_space acc @ x"
  shows "rebuild_inv k (seen @ x) (chunks, new)"
proof -
  from inv obtain ps oc rc where m: "map (\<lambda>(ov, rest). ov @ rest) ps = map non_space chunks"
    and a: "non_space acc = oc @ rc" and ch: "overlaps_chain k [] ps"
    and su: "suffix oc (chain_end [] ps)" and le: "length oc \<le> k"
    and d: "concat (map snd ps) @ rc = seen"
    unfolding rebuild_inv_def by auto
  have 1: "non_space new = oc @ (rc @ x)" using new a by simp
  have 2: "concat (map snd ps) @ (rc @ x) = seen @ x" using d by simp
  from m 1 ch su le 2 show ?thesis
    unfolding rebuild_inv_def fst_conv snd_conv by blast
qed

lemma rebuild_emit_sentence:
  assumes inv: "rebuild_inv k seen (chunks, [])"
  shows "rebuild_inv k (seen @ non_space s) (chunks @ [strip s], [])"
proof -
  from inv obtain ps oc rc where m: "map (\<lambda>(ov, rest). ov @ rest) ps = map non_space chunks"
    and a: "non_space [] = oc @ rc" and ch: "overlaps_chain k [] ps"
    and d: "concat (map snd ps) @ rc = seen"
    unfolding rebuild_inv_def by auto
  from a have rc: "rc = []" by simp
  let ?ps = "ps @ [([], non_space s)]"
  have 1: "map (\<lambda>(ov, rest). ov @ rest) ?ps = map non_space (chunks @ [strip s])"
    using m by simp
  have 2: "overlaps_chain k [] ?ps"
    using ch by (simp add: overlaps_chain_append)
  have 3: "concat (map snd ?ps) @ [] = seen @ non_space s"
    using d rc by simp
  have 4: "non_space [] = [] @ []" by simp
  have 5: "suffix [] (chain_end [] ?ps)" "length ([]::string) \<le> k" by simp_all
  from 1 4 2 5 3 show ?thesis
    unfolding rebuild_inv_def fst_conv snd_conv by blast
qed

section \<open>The splitter loses no text\<close>

lemma non_space_Cons [simp]:
  "non_space (c # s) = (if is_space c then non_space s else c # non_space s)"
  by (simp add: non_space_def)

lemma length_non_space_le: "length (non_space s) \<le> length s"
  by (simp add: non_space_def)

lemma sentence_step_rebuild:
  assumes inv: "rebuild_inv (nat ov) seen st"
  shows "rebuild_inv (nat ov) (seen @ non_space s) (sentence_step t ov st s)"
proof -
  obtain chunks temp where st: "st = (chunks, temp)" by (cases st)
  note inv' = inv [unfolded st]
  show ?thesis
  proof (cases "int (length (temp @ '' '' @ s)) \<le> t")
    case fits: True
    let ?new = "if temp \<noteq> [] then temp @ '' '' @ s else s"
    have "non_space ?new = non_space temp @ non_space s" by simp
    with inv' have "rebuild_inv (nat ov) (seen @ non_space s) (chunks, ?new)"
      by (rule rebuild_extend)
    with fits show ?thesis by (simp add: st sentence_step_def)
  next
    case over: False
    show ?thesis
    proof (cases "temp = []")
      case True
      from inv' have "rebuild_inv (nat ov) (seen @ non_space s) (chunks @ [strip s], [])"
        unfolding True by (rule rebuild_emit_sentence)
      with over True show ?thesis by (simp add: st sentence_step_def)
    next
      case False
      show ?thesis
      proof (cases "ov > 0")
        case pos: True
        let ?pre = "if int (length temp) > ov then last_chars (nat ov) temp else temp"
        have "suffix ?pre temp" by (simp add: suffix_last_chars)
        then have 1: "suffix (non_space ?pre) (non_space temp)" by (rule suffix_non_space)
        have "length ?pre \<le> nat ov" using length_last_chars [of "nat ov" temp] by auto
        with length_non_space_le [of ?pre] have 2: "length (non_space ?pre) \<le> nat ov" by linarith
        have 3: "non_space (?pre @ '' '' @ s) = non_space ?pre @ non_space s" by simp
        from inv' 1 2 3
        have "rebuild_inv (nat ov) (seen @ non_space s) (chunks @ [strip temp], ?pre @ '' '' @ s)"
          by (rule rebuild_emit)
        with over False pos show ?thesis by (simp add: st sentence_step_def)
      next
        case npos: False
        have 1: "suffix [] (non_space temp)" "length ([]::string) \<le> nat ov" by simp_all
        have 3: "non_space s = [] @ non_space s" by simp
        from inv' 1 3
        have "rebuild_inv (nat ov) (seen @ non_space s) (chunks @ [strip temp], s)"
          by (rule rebuild_emit)
        with over False npos show ?thesis by (simp add: st sentence_step_def)
      qed
    qed
  qed
qed

lemma foldl_sentence_step_rebuild:
  "rebuild_inv (nat ov) seen st \<Longrightarrow>
   rebuild_inv (nat ov) (seen @ concat (map non_space ss)) (foldl (sentence_step t ov) st ss)"
proof (induction ss arbitrary: st seen)
  case Nil
  then show ?case by simp
next
  case (Cons s ss)
  from Cons.prems have "rebuild_inv (nat ov) (seen @ non_space s) (sentence_step t ov st s)"
    by (rule sentence_step_rebuild)
  from Cons.IH [OF this] show ?case by simp
qed

lemma paragraph_step_rebuild:
  assumes inv: "rebuild_inv (nat ov) seen st"
  shows "rebuild_inv (nat ov) (seen @ non_space para) (paragraph_step t ov st para)"
proof -
  obtain chunks cur where st: "st = (chunks, cur)" by (cases st)
  note inv' = inv [unfolded st]
  let ?test = "if cur \<noteq> [] then cur @ [CHR 0x0A, CHR 0x0A] @ para else para"
  show ?thesis
  proof (cases "int (length ?test) \<le> t")
    case True
    have "non_space ?test = non_space cur @ non_space para" by (simp add: non_space_def)
    with inv' have "rebuild_inv (nat ov) (seen @ non_space para) (chunks, ?test)"
      by (rule rebuild_extend)
    with True show ?thesis by (simp add: st paragraph_step_def Let_def)
  next
    case over: False
    show ?thesis
    proof (cases "cur = []")
      case True
      with over have long: "int (length para) > t" by simp
      from inv' have "rebuild_inv (nat ov) (seen @ concat (map non_space (split_sentences para)))
          (foldl (sentence_step t ov) (chunks, cur) (split_sentences para))"
        by (rule foldl_sentence_step_rebuild)
      with over True long show ?thesis
        by (simp add: st paragraph_step_def Let_def non_space_split_sentences)
    next
      case False
      show ?thesis
      proof (cases "int (length para) > t")
        case long: True
        have 1: "suffix (non_space (overlap_seed ov cur)) (non_space cur)"
          using suffix_overlap_seed by (rule suffix_non_space)
        have "int (length (overlap_seed ov cur)) \<le> max 0 ov" by (rule length_overlap_seed)
        then have "length (overlap_seed ov cur) \<le> nat ov" by linarith
        with length_non_space_le [of "overlap_seed ov cur"]
        have 2: "length (non_space (overlap_seed ov cur)) \<le> nat ov" by linarith
        have 3: "non_space (overlap_seed ov cur) = non_space (overlap_seed ov cur) @ []" by simp
        from inv' 1 2 3
        have "rebuild_inv (nat ov) (seen @ []) (chunks @ [strip cur], overlap_seed ov cur)"
          by (rule rebuild_emit)
        then have "rebuild_inv (nat ov) seen (chunks @ [strip cur], overlap_seed ov cur)" by simp
        then have "rebuild_inv (nat ov) (seen @ concat (map non_space (split_sentences para)))
          (foldl (sentence_step t ov) (chunks @ [strip cur], overlap_seed ov cur) (split_sentences para))"
          by (rule foldl_sentence_step_rebuild)
        with over False long show ?thesis
          by (simp add: st paragraph_step_def Let_def non_space_split_sentences)
      next
        case short: False
        have 1: "suffix [] (non_space cur)" "length ([]::string) \<le> nat ov" by simp_all
        have 3: "non_space para = [] @ non_space para" by simp
        from inv' 1 3
        have "rebuild_inv (nat ov) (seen @ non_space para) (chunks @ [strip cur], para)"
          by (rule rebuild_emit)
        with over False short show ?thesis
          by (simp add: st paragraph_step_def Let_def)
      qed
    qed
  qed
qed

lemma foldl_paragraph_step_rebuild:
  "rebuild_inv (nat ov) seen st \<Longrightarrow>
   rebuild_inv (nat ov) (seen @ concat (map non_space ps)) (foldl (paragraph_step t ov) st ps)"
proof (induction ps arbitrary: st seen)
  case Nil
  then show ?case by simp
next
  case (Cons p ps)
  from Cons.prems have "rebuild_inv (nat ov) (seen @ non_space p) (paragraph_step t ov st p)"
    by (rule paragraph_step_rebuild)
  from Cons.IH [OF this] show ?case by simp
qed

lemma map_filter_nonempty:
  "map (\<lambda>(ov, rest). ov @ rest) (filter (\<lambda>(ov, rest). ov @ rest \<noteq> []) qs)
     = filter (\<lambda>w. w \<noteq> []) (map (\<lambda>(ov, rest). ov @ rest) qs)"
  by (induction qs) auto

lemma map_non_space_filter:
  "filter (\<lambda>w. w \<noteq> []) (map non_space cs) = map non_space (filter (\<lambda>c. strip c \<noteq> []) cs)"
  by (induction cs) (simp_all add: strip_not_Nil_non_space)

lemma smart_split_content_rebuild:
  "\<exists>ps. map (\<lambda>(ov, rest). ov @ rest) ps = map non_space (smart_split_content doc t ov)
        \<and> overlaps_chain (nat ov) [] ps \<and> concat (map snd ps) = non_space doc"
proof -
  obtain chunks cur where fin: "foldl (paragraph_step t ov) ([], []) (split_paragraphs doc) = (chunks, cur)"
    by (cases "foldl (paragraph_step t ov) ([], []) (split_paragraphs doc)")
  have "rebuild_inv (nat ov) [] ([], [])"
    unfolding rebuild_inv_def by (rule exI [of _ "[]"]) simp
  then have "rebuild_inv (nat ov) ([] @ concat (map non_space (split_paragraphs doc)))
      (foldl (paragraph_step t ov) ([], []) (split_paragraphs doc))"
    by (rule foldl_paragraph_step_rebuild)
  then have "rebuild_inv (nat ov) (non_space doc) (chunks, cur)"
    by (simp add: fin non_space_split_paragraphs)
  then obtain ps oc rc where m: "map (\<lambda>(ov, rest). ov @ rest) ps = map non_space chunks"
    and a: "non_space cur = oc @ rc" and ch: "overlaps_chain (nat ov) [] ps"
    and su: "suffix oc (chain_end [] ps)" and le: "length oc \<le> nat ov"
    and d: "concat (map snd ps) @ rc = non_space doc"
    unfolding rebuild_inv_def by auto
  let ?emitted = "if cur \<noteq> [] then chunks @ [strip cur] else chunks"
  let ?qs = "if cur \<noteq> [] then ps @ [(oc, rc)] else ps"
  have rc: "rc = []" if "cur = []" using a that by simp
  have 1: "map (\<lambda>(ov, rest). ov @ rest) ?qs = map non_space ?emitted"
    using m a by simp
  have 2: "overlaps_chain (nat ov) [] ?qs"
    using ch su le by (simp add: overlaps_chain_append)
  have 3: "concat (map snd ?qs) = non_space doc"
    using d rc by auto
  let ?keep = "filter (\<lambda>(ov, rest). ov @ rest \<noteq> []) ?qs"
  have "map (\<lambda>(ov, rest). ov @ rest) ?keep = filter (\<lambda>w. w \<noteq> []) (map (\<lambda>(ov, rest). ov @ rest) ?qs)"
    by (rule map_filter_nonempty)
  also have "\<dots> = filter (\<lambda>w. w \<noteq> []) (map non_space ?emitted)"
    by (simp only: 1)
  also have "\<dots> = map non_space (filter (\<lambda>c. strip c \<noteq> []) ?emitted)"
    by (rule map_non_space_filter)
  also have "\<dots> = map non_space (smart_split_content doc t ov)"
    by (simp add: smart_split_content_def fin)
  finally have k1: "map (\<lambda>(ov, rest). ov @ rest) ?keep = map non_space (smart_split_content doc t ov)" .
  have k2: "overlaps_chain (nat ov) [] ?keep"
    using 2 by (rule overlaps_chain_filter)
  have k3: "concat (map snd ?keep) = non_space doc"
    using 3 by (simp only: concat_rest_filter)
  from k1 k2 k3 show ?thesis by blast
qed

section \<open>Size discipline and reconstruction\<close>

text \<open>
  C8, as stated: apart from the segments that arise from a sentence longer than the
  budget, every chunk has at most target size plus overlap characters, and no chunk is
  blank. With a budget of 10 and an overlap of 3, the text of a sentence of 9 and a
  sentence of 10 characters has no sentence longer than the budget, and its second parent
  chunk has 14 characters: the overlap, the joining blank and the sentence. A document
  of two blanks gives a parent chunk that is blank.
\<close>

theorem C8_size_discipline_counterexample:
  "map (\<lambda>c. (content c, char_count c))
     (create_parent_chunks (default_config\<lparr>parent_chunk_size := 10, child_chunk_size := 5, overlap_size := 3\<rparr>)
        (\<lambda>s. s) ''s'' ''aaaaaaaa. bbbbbbbbb.'')
     = [(''aaaaaaaa.'', 9), (''aa. bbbbbbbbb.'', 14)]
   \<and> split_paragraphs ''aaaaaaaa. bbbbbbbbb.'' = [''aaaaaaaa. bbbbbbbbb.'']
   \<and> split_sentences ''aaaaaaaa. bbbbbbbbb.'' = [''aaaaaaaa.'', ''bbbbbbbbb.'']
   \<and> oversized_units ''aaaaaaaa. bbbbbbbbb.'' 10 = []
   \<and> \<not> (14 \<le> (10::int) + 3)
   \<and> map (\<lambda>c. strip (content c)) (create_parent_chunks default_config (\<lambda>s. s) ''s'' ''  '') = [[]]"
  by code_simp

text \<open>
  C8, amended. Every chunk of a run has its content's length as character count. A
  parent chunk has at most parent size plus overlap plus one characters (the one is the
  blank that joins the overlap and the sentence), unless it arises from a sentence of its
  section that is longer than the parent size; a child chunk has at most child size plus
  overlap plus one characters, unless it arises from a sentence of its parent's content
  that is longer than the child size. When no section is blank, no chunk is blank.
\<close>

theorem C8_size_discipline:
  "(\<forall>c \<in> set (all_chunks_of cfg fp secs).
      char_count c = length (content c)
      \<and> (level c = Parent \<longrightarrow>
           (\<exists>sec \<in> set secs. section_name c = fst sec
              \<and> (int (char_count c) \<le> parent_chunk_size cfg + max 0 (overlap_size cfg) + 1
                   \<or> from_oversized_unit (oversized_units (snd sec) (parent_chunk_size cfg))
                        (overlap_size cfg) (content c))))
      \<and> (level c = Child \<longrightarrow>
           (\<exists>p \<in> set (all_chunks_of cfg fp secs). level p = Parent \<and> parent_id c = Some (chunk_id p)
              \<and> (int (char_count c) \<le> child_chunk_size cfg + max 0 (overlap_size cfg) + 1
                   \<or> from_oversized_unit (oversized_units (content p) (child_chunk_size cfg))
                        (overlap_size cfg) (content c)))))
   \<and> ((\<forall>sec \<in> set secs. strip (snd sec) \<noteq> []) \<longrightarrow>
        (\<forall>c \<in> set (all_chunks_of cfg fp secs). strip (content c) \<noteq> []))"
proof (intro conjI ballI impI)
  fix c assume c: "c \<in> set (all_chunks_of cfg fp secs)"
  from chunk_origin [OF c] obtain sec t where sec: "sec \<in> set secs"
    and t: "t \<in> set (parent_texts cfg (snd sec))"
    and o: "(level c = Parent \<and> section_name c = fst sec \<and> content c = t \<and> char_count c = length t)
         \<or> (level c = Child \<and> content c \<in> set (child_texts cfg t) \<and> char_count c = length (content c)
              \<and> (\<exists>p \<in> set (all_chunks_of cfg fp secs).
                    level p = Parent \<and> parent_id c = Some (chunk_id p) \<and> content p = t))"
    by blast
  from o show "char_count c = length (content c)" by auto
  {
    assume "level c = Parent"
    with o have p: "section_name c = fst sec" "content c = t" "char_count c = length t" by auto
    from parent_texts_size(1) [OF t] p sec
    show "\<exists>sec \<in> set secs. section_name c = fst sec
              \<and> (int (char_count c) \<le> parent_chunk_size cfg + max 0 (overlap_size cfg) + 1
                   \<or> from_oversized_unit (oversized_units (snd sec) (parent_chunk_size cfg))
                        (overlap_size cfg) (content c))"
      by auto
  }
  {
    assume "level c = Child"
    with o obtain p where u: "content c \<in> set (child_texts cfg t)" "char_count c = length (content c)"
      and p: "p \<in> set (all_chunks_of cfg fp secs)" "level p = Parent" "parent_id c = Some (chunk_id p)"
        "content p = t"
      by auto
    from child_texts_size(1) [OF u(1)] u(2) p
    show "\<exists>p \<in> set (all_chunks_of cfg fp secs). level p = Parent \<and> parent_id c = Some (chunk_id p)
              \<and> (int (char_count c) \<le> child_chunk_size cfg + max 0 (overlap_size cfg) + 1
                   \<or> from_oversized_unit (oversized_units (content p) (child_chunk_size cfg))
                        (overlap_size cfg) (content c))"
      by auto
  }
next
  fix c assume nb: "\<forall>sec \<in> set secs. strip (snd sec) \<noteq> []"
    and c: "c \<in> set (all_chunks_of cfg fp secs)"
  from chunk_origin [OF c] obtain sec t where sec: "sec \<in> set secs"
    and t: "t \<in> set (parent_texts cfg (snd sec))"
    and o: "(level c = Parent \<and> section_name c = fst sec \<and> content c = t \<and> char_count c = length t)
         \<or> (level c = Child \<and> content c \<in> set (child_texts cfg t) \<and> char_count c = length (content c)
              \<and> (\<exists>p \<in> set (all_chunks_of cfg fp secs).
                    level p = Parent \<and> parent_id c = Some (chunk_id p) \<and> content p = t))"
    by blast
  from nb sec have "strip (snd sec) \<noteq> []" by blast
  with parent_texts_size(2) [OF t] have st: "strip t \<noteq> []" by blast
  from o show "strip (content c) \<noteq> []"
  proof
    assume "level c = Parent \<and> section_name c = fst sec \<and> content c = t \<and> char_count c = length t"
    with st show ?thesis by simp
  next
    assume "level c = Child \<and> content c \<in> set (child_texts cfg t) \<and> char_count c = length (content c)
              \<and> (\<exists>p \<in> set (all_chunks_of cfg fp secs).
                    level p = Parent \<and> parent_id c = Some (chunk_id p) \<and> content p = t)"
    then have "content c \<in> set (child_texts cfg t)" by blast
    from child_texts_size(2) [OF this st] show ?thesis .
  qed
qed

lemma two_sections_stripped:
  "map (\<lambda>sec. strip (snd sec)) two_sections = [''aaaa bbbb\<newline>\<newline>cccc dddd'', ''wxyz'']"
  by code_simp

lemma two_sections_not_blank: "\<forall>sec \<in> set two_sections. strip (snd sec) \<noteq> []"
  by code_simp

theorem C8_size_discipline_witness:
  "map (\<lambda>sec. strip (snd sec)) two_sections = [''aaaa bbbb\<newline>\<newline>cccc dddd'', ''wxyz'']
   \<and> level (all_chunks_of small_config (\<lambda>s. s) two_sections ! 1) = Child
   \<and> char_count (all_chunks_of small_config (\<lambda>s. s) two_sections ! 1)
       = length (content (all_chunks_of small_config (\<lambda>s. s) two_sections ! 1))
   \<and> (\<exists>p \<in> set (all_chunks_of small_config (\<lambda>s. s) two_sections). level p = Parent
         \<and> parent_id (all_chunks_of small_config (\<lambda>s. s) two_sections ! 1) = Some (chunk_id p)
         \<and> (int (char_count (all_chunks_of small_config (\<lambda>s. s) two_sections ! 1))
               \<le> child_chunk_size small_config + max 0 (overlap_size small_config) + 1
             \<or> from_oversized_unit (oversized_units (content p) (child_chunk_size small_config))
                  (overlap_size small_config) (content (all_chunks_of small_config (\<lambda>s. s) two_sections ! 1))))
   \<and> strip (content (all_chunks_of small_config (\<lambda>s. s) two_sections ! 1)) \<noteq> []"
proof -
  from C8_size_discipline [of small_config "\<lambda>s. s" two_sections]
    two_sections_not_blank two_sections_stripped sample_run_members sample_run_fields
  show ?thesis by blast
qed

lemma parent_indices:
  "map chunk_index (create_parent_chunks cfg fp nm doc)
     = [1 ..< 1 + length (create_parent_chunks cfg fp nm doc)]"
proof -
  have "map chunk_index (create_parent_chunks cfg fp nm doc)
        = map fst (enumerate 1 (parent_texts cfg doc))"
    unfolding create_parent_chunks_eq by (simp add: case_prod_beta comp_def)
  also have "\<dots> = [1 ..< 1 + length (parent_texts cfg doc)]"
    by (rule map_fst_enumerate)
  also have "length (parent_texts cfg doc) = length (create_parent_chunks cfg fp nm doc)"
    unfolding create_parent_chunks_eq by simp
  finally show ?thesis .
qed

lemma parent_contents:
  "map content (create_parent_chunks cfg fp nm doc) = parent_texts cfg doc"
proof -
  have "map content (create_parent_chunks cfg fp nm doc)
        = map snd (enumerate 1 (parent_texts cfg doc))"
    unfolding create_parent_chunks_eq by (simp add: case_prod_beta comp_def)
  then show ?thesis by (simp only: map_snd_enumerate)
qed

lemma parent_texts_rebuild:
  "\<exists>ps. map (\<lambda>(ov, rest). ov @ rest) ps = map non_space (parent_texts cfg doc)
        \<and> overlaps_chain (nat (overlap_size cfg)) [] ps \<and> concat (map snd ps) = non_space doc"
proof (cases "int (length doc) \<le> parent_chunk_size cfg")
  case True
  have "map (\<lambda>(ov, rest). ov @ rest) [([], non_space doc)] = map non_space [doc]
        \<and> overlaps_chain (nat (overlap_size cfg)) [] [([], non_space doc)]
        \<and> concat (map snd [([], non_space doc)]) = non_space doc"
    by simp
  with True show ?thesis unfolding parent_texts_def by (simp only: if_True) (rule exI)
next
  case False
  then show ?thesis unfolding parent_texts_def
    by (simp only: if_False) (rule smart_split_content_rebuild)
qed

text \<open>
  C9. The parent chunks of a document are numbered 1, 2, ... in list order. Read without
  their white space, each is an overlap followed by a rest, where the first overlap is
  empty and every later overlap is a suffix of the previous chunk of at most
  \<open>overlap_size\<close> characters; the rests, concatenated in order, are the document without
  its white space.
\<close>

theorem C9_reconstruction:
  "\<exists>ps. map (\<lambda>(ov, rest). ov @ rest) ps
          = map (\<lambda>p. non_space (content p)) (create_parent_chunks cfg fp nm doc)
        \<and> overlaps_chain (nat (overlap_size cfg)) [] ps
        \<and> concat (map snd ps) = non_space doc
        \<and> map chunk_index (create_parent_chunks cfg fp nm doc)
            = [1 ..< 1 + length (create_parent_chunks cfg fp nm doc)]"
proof -
  from parent_texts_rebuild [of cfg doc]
  obtain ps where 1: "map (\<lambda>(ov, rest). ov @ rest) ps = map non_space (parent_texts cfg doc)"
    and 2: "overlaps_chain (nat (overlap_size cfg)) [] ps" and 3: "concat (map snd ps) = non_space doc"
    by blast
  have "map (\<lambda>p. non_space (content p)) (create_parent_chunks cfg fp nm doc)
        = map non_space (map content (create_parent_chunks cfg fp nm doc))"
    by (simp add: comp_def)
  also have "\<dots> = map non_space (parent_texts cfg doc)"
    by (simp only: parent_contents)
  finally have "map (\<lambda>(ov, rest). ov @ rest) ps
          = map (\<lambda>p. non_space (content p)) (create_parent_chunks cfg fp nm doc)"
    using 1 by simp
  with 2 3 parent_indices [of cfg fp nm doc] show ?thesis by blast
qed

section \<open>A run under any configuration\<close>

lemma smart_split_content_not_Nil:
  assumes "strip doc \<noteq> []"
  shows "smart_split_content doc t ov \<noteq> []"
proof
  assume e: "smart_split_content doc t ov = []"
  from smart_split_content_rebuild [of doc t ov]
  obtain ps where m: "map (\<lambda>(ov, rest). ov @ rest) ps = map non_space (smart_split_content doc t ov)"
    and c: "concat (map snd ps) = non_space doc"
    by blast
  from m e have "ps = []" by simp
  with c have "non_space doc = []" by simp
  with assms show False by (simp add: strip_not_Nil_non_space)
qed

lemma parent_texts_not_Nil: "strip doc \<noteq> [] \<Longrightarrow> parent_texts cfg doc \<noteq> []"
  by (simp add: parent_texts_def smart_split_content_not_Nil)

lemma child_texts_not_Nil: "strip t \<noteq> [] \<Longrightarrow> child_texts cfg t \<noteq> []"
  by (simp add: child_texts_def smart_split_content_not_Nil)

lemma first_family:
  assumes "parent_texts cfg doc \<noteq> []"
  shows "(parent_of cfg fp nm 0 (hd (parent_texts cfg doc)),
          children_of cfg fp nm 0 (hd (parent_texts cfg doc))) \<in> set (families cfg fp (nm, doc))"
proof -
  from assms have "(0, hd (parent_texts cfg doc)) \<in> set (enumerate 0 (parent_texts cfg doc))"
    by (simp add: in_set_enumerate_eq hd_conv_nth)
  then have "(\<lambda>(k, t). (parent_of cfg fp nm k t, children_of cfg fp nm k t)) (0, hd (parent_texts cfg doc))
      \<in> set (families cfg fp (nm, doc))"
    unfolding families_eq set_map by (rule imageI)
  then show ?thesis by simp
qed

lemma numbered_member:
  assumes "x \<in> set (run_base cfg fp secs)"
  obtains m where "x\<lparr>global_id := Some m\<rparr> \<in> set (all_chunks_of cfg fp secs)"
proof -
  from assms have "\<exists>m. x\<lparr>global_id := Some m\<rparr> \<in> set (assign_global_ids 1 (run_base cfg fp secs))"
    by (rule assign_global_ids_member)
  then show thesis using that by (auto simp only: all_chunks_of_base)
qed

lemma section_yields_chunks:
  assumes sec: "sec \<in> set secs" and nb: "strip (snd sec) \<noteq> []"
  shows "\<exists>p \<in> set (all_chunks_of cfg fp secs). level p = Parent \<and> section_name p = fst sec
           \<and> (\<exists>c \<in> set (all_chunks_of cfg fp secs). level c = Child \<and> parent_id c = Some (chunk_id p))"
proof -
  let ?t = "hd (parent_texts cfg (snd sec))"
  let ?p = "parent_of cfg fp (fst sec) 0 ?t"
  let ?cs = "children_of cfg fp (fst sec) 0 ?t"
  from nb have pt: "parent_texts cfg (snd sec) \<noteq> []" by (rule parent_texts_not_Nil)
  then have "(?p, ?cs) \<in> set (families cfg fp (fst sec, snd sec))" by (rule first_family)
  with sec have fam: "(?p, ?cs) \<in> set (run_families cfg fp secs)"
    by (auto simp: run_families_def)
  from pt have "?t \<in> set (parent_texts cfg (snd sec))" by simp
  from parent_texts_size(2) [OF this nb] have "strip ?t \<noteq> []" .
  then have "child_texts cfg ?t \<noteq> []" by (rule child_texts_not_Nil)
  moreover have "length ?cs = length (child_texts cfg ?t)" by (simp add: children_of_def)
  ultimately have ne: "?cs \<noteq> []" by (simp only: length_0_conv [symmetric] simp_thms)
  then have cm: "hd ?cs \<in> set ?cs" by simp
  from fam have "?p \<in> set (run_base cfg fp secs)"
    unfolding set_run_base by force
  then obtain m where pm: "?p\<lparr>global_id := Some m\<rparr> \<in> set (all_chunks_of cfg fp secs)"
    by (rule numbered_member)
  from fam cm have "hd ?cs \<in> set (run_base cfg fp secs)"
    unfolding set_run_base by force
  then obtain n where cn: "(hd ?cs)\<lparr>global_id := Some n\<rparr> \<in> set (all_chunks_of cfg fp secs)"
    by (rule numbered_member)
  have p: "level (?p\<lparr>global_id := Some m\<rparr>) = Parent" "section_name (?p\<lparr>global_id := Some m\<rparr>) = fst sec"
    "chunk_id (?p\<lparr>global_id := Some m\<rparr>) = fst sec @ ''_P'' @ str_nat (Suc 0)"
    by (simp_all add: parent_of_def)
  have c: "level ((hd ?cs)\<lparr>global_id := Some n\<rparr>) = Child"
    "parent_id ((hd ?cs)\<lparr>global_id := Some n\<rparr>) = Some (fst sec @ ''_P'' @ str_nat (Suc 0))"
    using child_of_facts(1,3) [OF cm] by simp_all
  from c p(3) have "level ((hd ?cs)\<lparr>global_id := Some n\<rparr>) = Child
      \<and> parent_id ((hd ?cs)\<lparr>global_id := Some n\<rparr>) = Some (chunk_id (?p\<lparr>global_id := Some m\<rparr>))"
    by simp
  with cn have "\<exists>c \<in> set (all_chunks_of cfg fp secs). level c = Child
      \<and> parent_id c = Some (chunk_id (?p\<lparr>global_id := Some m\<rparr>))"
    by (rule bexI [rotated])
  with p(1,2) have "level (?p\<lparr>global_id := Some m\<rparr>) = Parent
      \<and> section_name (?p\<lparr>global_id := Some m\<rparr>) = fst sec
      \<and> (\<exists>c \<in> set (all_chunks_of cfg fp secs). level c = Child
            \<and> parent_id c = Some (chunk_id (?p\<lparr>global_id := Some m\<rparr>)))"
    by simp
  with pm show ?thesis by (rule bexI [rotated])
qed

lemma metrics_of_one_token_each:
  assumes "map estimated_tokens (filter (\<lambda>c. level c = Child) cs) = [Suc 0]"
    and "map estimated_tokens (filter (\<lambda>c. level c = Parent) cs) = [Suc 0]"
    and "available_context cfg = 2867" and "model_context_window cfg = 4096"
  shows "calculate_optimization_metrics cfg cs = Inr ()"
proof -
  have c: "chunks_per_query 2867 (Some 1) = Inr (float_floor_div 2867 (Finite 4))"
    by (rule chunks_per_query_one_token) simp
  have w: "int_to_float 4096 = Inr 4096" by (rule int_to_float_numeral) simp
  from arg_cong [OF assms(2), of length]
  have l: "length (filter (\<lambda>c. level c = Parent) cs) = Suc 0" by simp
  then have n: "filter (\<lambda>c. level c = Parent) cs \<noteq> []" by auto
  show ?thesis
    by (simp add: calculate_optimization_metrics_def Let_def assms average_of_one_token c w
        int_true_divide_def round_double_one l n)
qed

lemma run_of_four_characters:
  "map chunk_id (all_chunks_of
       (default_config\<lparr>parent_chunk_size := 10, child_chunk_size := 5, overlap_size := 5\<rparr>)
       (\<lambda>s. s) [(''t'', ''wxyz'')]) = [''t_P1'', ''t_P1_C1'']
   \<and> map estimated_tokens (filter (\<lambda>c. level c = Child) (all_chunks_of
       (default_config\<lparr>parent_chunk_size := 10, child_chunk_size := 5, overlap_size := 5\<rparr>)
       (\<lambda>s. s) [(''t'', ''wxyz'')])) = [Suc 0]
   \<and> map estimated_tokens (filter (\<lambda>c. level c = Parent) (all_chunks_of
       (default_config\<lparr>parent_chunk_size := 10, child_chunk_size := 5, overlap_size := 5\<rparr>)
       (\<lambda>s. s) [(''t'', ''wxyz'')])) = [Suc 0]"
  by code_simp

lemma run_with_sizes_zero:
  "map chunk_id (all_chunks_of
       (default_config\<lparr>parent_chunk_size := 0, child_chunk_size := 0, overlap_size := 0\<rparr>)
       (\<lambda>s. s) [(''t'', ''wxyz'')]) = [''t_P1'', ''t_P1_C1'']
   \<and> map estimated_tokens (filter (\<lambda>c. level c = Child) (all_chunks_of
       (default_config\<lparr>parent_chunk_size := 0, child_chunk_size := 0, overlap_size := 0\<rparr>)
       (\<lambda>s. s) [(''t'', ''wxyz'')])) = [Suc 0]
   \<and> map estimated_tokens (filter (\<lambda>c. level c = Parent) (all_chunks_of
       (default_config\<lparr>parent_chunk_size := 0, child_chunk_size := 0, overlap_size := 0\<rparr>)
       (\<lambda>s. s) [(''t'', ''wxyz'')])) = [Suc 0]"
  by code_simp

text \<open>
  C2, as stated: a configuration whose overlap is not smaller than the child size, or with
  a size that is not positive, is rejected before any document is processed. With an
  overlap of 5 and a child size of 5, and with all three sizes 0, the run builds and
  returns the parent and the child of the section.
\<close>

theorem C2_invalid_configuration_counterexample:
  "overlap_size (default_config\<lparr>parent_chunk_size := 10, child_chunk_size := 5, overlap_size := 5\<rparr>)
     \<ge> child_chunk_size (default_config\<lparr>parent_chunk_size := 10, child_chunk_size := 5, overlap_size := 5\<rparr>)
   \<and> map chunk_id (fst (create_hierarchical_chunks
         (default_config\<lparr>parent_chunk_size := 10, child_chunk_size := 5, overlap_size := 5\<rparr>)
         (\<lambda>s. s) [(''t'', ''wxyz'')])) = [''t_P1'', ''t_P1_C1'']
   \<and> (case snd (create_hierarchical_chunks
         (default_config\<lparr>parent_chunk_size := 10, child_chunk_size := 5, overlap_size := 5\<rparr>)
         (\<lambda>s. s) [(''t'', ''wxyz'')]) of
        Inl e \<Rightarrow> False
      | Inr cs \<Rightarrow> map chunk_id cs = [''t_P1'', ''t_P1_C1''])
   \<and> (case snd (create_hierarchical_chunks
         (default_config\<lparr>parent_chunk_size := 0, child_chunk_size := 0, overlap_size := 0\<rparr>)
         (\<lambda>s. s) [(''t'', ''wxyz'')]) of
        Inl e \<Rightarrow> False
      | Inr cs \<Rightarrow> map chunk_id cs = [''t_P1'', ''t_P1_C1''])"
proof -
  have m: "calculate_optimization_metrics
       (default_config\<lparr>parent_chunk_size := 10, child_chunk_size := 5, overlap_size := 5\<rparr>)
       (all_chunks_of (default_config\<lparr>parent_chunk_size := 10, child_chunk_size := 5, overlap_size := 5\<rparr>)
          (\<lambda>s. s) [(''t'', ''wxyz'')]) = Inr ()"
    by (rule metrics_of_one_token_each) (simp_all add: run_of_four_characters, simp_all add: default_config_def)
  have z: "calculate_optimization_metrics
       (default_config\<lparr>parent_chunk_size := 0, child_chunk_size := 0, overlap_size := 0\<rparr>)
       (all_chunks_of (default_config\<lparr>parent_chunk_size := 0, child_chunk_size := 0, overlap_size := 0\<rparr>)
          (\<lambda>s. s) [(''t'', ''wxyz'')]) = Inr ()"
    by (rule metrics_of_one_token_each) (simp_all add: run_with_sizes_zero, simp_all add: default_config_def)
  show ?thesis
    by (simp add: create_hierarchical_chunks_def Let_def m z run_of_four_characters
        run_with_sizes_zero)
qed

text \<open>
  C2, amended. No configuration is rejected: whatever the sizes of the configuration, the
  sections are processed, and the chunk list that the run builds holds, for every section
  that is not blank, a parent chunk of that section and a child chunk of that parent.
\<close>

theorem C2_no_configuration_check:
  "\<forall>sec \<in> set secs. strip (snd sec) \<noteq> [] \<longrightarrow>
     (\<exists>p \<in> set (fst (create_hierarchical_chunks cfg fp secs)).
        level p = Parent \<and> section_name p = fst sec
        \<and> (\<exists>c \<in> set (fst (create_hierarchical_chunks cfg fp secs)).
              level c = Child \<and> parent_id c = Some (chunk_id p)))"
proof (intro ballI impI)
  fix sec assume "sec \<in> set secs" "strip (snd sec) \<noteq> []"
  then have "\<exists>p \<in> set (all_chunks_of cfg fp secs). level p = Parent \<and> section_name p = fst sec
           \<and> (\<exists>c \<in> set (all_chunks_of cfg fp secs). level c = Child \<and> parent_id c = Some (chunk_id p))"
    by (rule section_yields_chunks)
  moreover have "fst (create_hierarchical_chunks cfg fp secs) = all_chunks_of cfg fp secs"
    by (simp add: create_hierarchical_chunks_def Let_def)
  ultimately show "\<exists>p \<in> set (fst (create_hierarchical_chunks cfg fp secs)).
        level p = Parent \<and> section_name p = fst sec
        \<and> (\<exists>c \<in> set (fst (create_hierarchical_chunks cfg fp secs)).
              level c = Child \<and> parent_id c = Some (chunk_id p))"
    by simp
qed

lemma section_of_four_characters:
  "(''t'', ''wxyz'') \<in> set [(''t'', ''wxyz'')] \<and> strip (snd (''t'', ''wxyz'')) = ''wxyz''"
  by code_simp

theorem C2_no_configuration_check_witness:
  "child_chunk_size (default_config\<lparr>parent_chunk_size := 10, child_chunk_size := 5, overlap_size := 5\<rparr>)
     \<le> overlap_size (default_config\<lparr>parent_chunk_size := 10, child_chunk_size := 5, overlap_size := 5\<rparr>)
   \<and> strip (snd (''t'', ''wxyz'')) = ''wxyz''
   \<and> (\<exists>p \<in> set (fst (create_hierarchical_chunks
                   (default_config\<lparr>parent_chunk_size := 10, child_chunk_size := 5, overlap_size := 5\<rparr>)
                   (\<lambda>s. s) [(''t'', ''wxyz'')])).
         level p = Parent \<and> section_name p = fst (''t'', ''wxyz'')
         \<and> (\<exists>c \<in> set (fst (create_hierarchical_chunks
                   (default_config\<lparr>parent_chunk_size := 10, child_chunk_size := 5, overlap_size := 5\<rparr>)
                   (\<lambda>s. s) [(''t'', ''wxyz'')])).
               level c = Child \<and> parent_id c = Some (chunk_id p)))"
proof -
  have ne: "strip (snd (''t'', ''wxyz'')) \<noteq> []" using section_of_four_characters by simp
  have sz: "child_chunk_size (default_config\<lparr>parent_chunk_size := 10, child_chunk_size := 5, overlap_size := 5\<rparr>)
     \<le> overlap_size (default_config\<lparr>parent_chunk_size := 10, child_chunk_size := 5, overlap_size := 5\<rparr>)"
    by simp
  from C2_no_configuration_check
         [of "[(''t'', ''wxyz'')]"
             "default_config\<lparr>parent_chunk_size := 10, child_chunk_size := 5, overlap_size := 5\<rparr>"
             "\<lambda>s. s"]
    section_of_four_characters ne sz
  show ?thesis by blast
qed

end
